theory Spec2Isabelle
  imports Main "HOL-Library.Multiset" "HOL-Library.Sublist"
begin

section \<open>The static-subtree optimizer (src/compiler/optimizer.js)\<close>

text \<open>
  An AST node is an element (\<open>type === 1\<close>), an expression text (\<open>type === 2\<close>) or a
  plain text (\<open>type === 3\<close>). The fields of an element that the optimizer reads or writes
  are collected in the record \<open>el\<close>; a field that may be absent on the JavaScript object is
  an option, \<open>None\<close> standing for the absent key.

  The \<open>parent\<close> back-reference is only followed by \<open>isDirectChildOfTemplateFor\<close>, which
  reads the \<open>tag\<close> and \<open>for\<close> of each ancestor; the optimizer never writes either. The
  record therefore holds the chain of ancestors as the list of their \<open>(tag, for)\<close> pairs,
  nearest first, and \<open>[]\<close> for a node without parent.

  \<open>other_keys\<close> are the own enumerable keys of the node besides the optional fields
  modelled here (\<open>type\<close>, \<open>tag\<close>, \<open>children\<close>, \<open>attrsMap\<close>, ... and whatever else the
  parser attached).

  The children of an element are a list of nodes. \<open>ifConditions\<close> is \<open>None\<close> when the
  field is absent; \<open>Some bs\<close> holds the blocks of the entries from index 1 on. Entry 0,
  which both loops of the optimizer skip, is not represented.
\<close>

record el =
  tag :: string
  attrsMap :: "(string \<times> string) list"
  parent :: "(string \<times> string option) list"
  pre :: "bool option"
  hasBindings :: "bool option"
  if_e :: "string option"
  for_e :: "string option"
  once :: "bool option"
  static :: "bool option"
  staticInFor :: "bool option"
  staticRoot :: "bool option"
  other_keys :: "string list"

datatype node =
    Element el "node list" "node list option"
  | Expression "bool option"
  | Text "bool option"

text \<open>JavaScript truthiness of an optional boolean and of an optional string.\<close>

definition truthy_b :: "bool option \<Rightarrow> bool" where
  "truthy_b b = (b = Some True)"

definition truthy_s :: "string option \<Rightarrow> bool" where
  "truthy_s s = (case s of None \<Rightarrow> False | Some t \<Rightarrow> t \<noteq> [])"

text \<open>
  The module variables \<open>isStaticKey\<close> and \<open>isPlatformReservedTag\<close>, which \<open>optimize\<close>
  sets before the two passes, and the helper \<open>isBuiltInTag\<close> imported from
  \<open>shared/util\<close> (not among the sources, hence a parameter).
\<close>

record ctx =
  isStaticKey :: "string \<Rightarrow> bool"
  isPlatformReservedTag :: "string \<Rightarrow> bool"
  isBuiltInTag :: "string \<Rightarrow> bool"

text \<open>\<open>node.static\<close> as the two passes read it: absent counts as false.\<close>

fun node_static :: "node \<Rightarrow> bool" where
  "node_static (Element e cs conds) = truthy_b (static e)"
| "node_static (Expression s) = truthy_b s"
| "node_static (Text s) = truthy_b s"

fun is_text :: "node \<Rightarrow> bool" where
  "is_text (Text s) = True"
| "is_text n = False"

fun opt_key :: "string \<Rightarrow> 'a option \<Rightarrow> string list" where
  "opt_key k None = []"
| "opt_key k (Some v) = [k]"

text \<open>\<open>Object.keys(node)\<close> of an element.\<close>

definition node_keys :: "el \<Rightarrow> node list option \<Rightarrow> string list" where
  "node_keys e conds =
     other_keys e @ opt_key ''pre'' (pre e) @ opt_key ''hasBindings'' (hasBindings e) @
     opt_key ''if'' (if_e e) @ opt_key ''for'' (for_e e) @ opt_key ''once'' (once e) @
     opt_key ''static'' (static e) @ opt_key ''staticInFor'' (staticInFor e) @
     opt_key ''staticRoot'' (staticRoot e) @ opt_key ''ifConditions'' conds"

fun isDirectChildOfTemplateFor :: "(string \<times> string option) list \<Rightarrow> bool" where
  "isDirectChildOfTemplateFor [] = False"
| "isDirectChildOfTemplateFor ((t, f) # ps) =
     (if t \<noteq> ''template'' then False
      else if truthy_s f then True
      else isDirectChildOfTemplateFor ps)"

fun isStatic :: "ctx \<Rightarrow> node \<Rightarrow> bool" where
  "isStatic c (Expression s) = False"
| "isStatic c (Text s) = True"
| "isStatic c (Element e cs conds) =
     (truthy_b (pre e) \<or>
      (\<not> truthy_b (hasBindings e) \<and>
       \<not> truthy_s (if_e e) \<and>
       \<not> truthy_s (for_e e) \<and>
       \<not> isBuiltInTag c (tag e) \<and>
       isPlatformReservedTag c (tag e) \<and>
       \<not> isDirectChildOfTemplateFor (parent e) \<and>
       list_all (isStaticKey c) (node_keys e conds)))"

text \<open>
  The guard of \<open>markStatic\<close> under which the children of an element are left alone:
  the tag is not reserved by the platform, it is not \<open>slot\<close>, and
  \<open>attrsMap['inline-template'] == null\<close>.
\<close>

definition slot_content_kept :: "ctx \<Rightarrow> el \<Rightarrow> bool" where
  "slot_content_kept c e =
     (\<not> isPlatformReservedTag c (tag e) \<and> tag e \<noteq> ''slot'' \<and>
      map_of (attrsMap e) ''inline-template'' = None)"

text \<open>
  First pass. The JavaScript mutates the tree in place; the model returns the marked
  tree. \<open>node.static\<close> starts as \<open>isStatic(node)\<close> and is set to false as soon as a
  marked child or a marked block of \<open>ifConditions[1..]\<close> is not static.
\<close>

fun markStatic :: "ctx \<Rightarrow> node \<Rightarrow> node" where
  "markStatic c (Expression s) = Expression (Some (isStatic c (Expression s)))"
| "markStatic c (Text s) = Text (Some (isStatic c (Text s)))"
| "markStatic c (Element e cs conds) =
     (let s0 = isStatic c (Element e cs conds) in
      if slot_content_kept c e then Element (e\<lparr>static := Some s0\<rparr>) cs conds
      else
        let cs' = map (markStatic c) cs;
            s1 = (s0 \<and> list_all node_static cs');
            conds' = map_option (map (markStatic c)) conds;
            s2 = (case conds' of None \<Rightarrow> s1 | Some bs \<Rightarrow> s1 \<and> list_all node_static bs)
        in Element (e\<lparr>static := Some s2\<rparr>) cs' conds')"

text \<open>
  The condition of \<open>markStaticRoots\<close> under which an element becomes a static root:
  \<open>node.static && node.children.length &&
   !(node.children.length === 1 && node.children[0].type === 3)\<close>.
\<close>

definition qualifies :: "el \<Rightarrow> node list \<Rightarrow> bool" where
  "qualifies e cs =
     (truthy_b (static e) \<and> cs \<noteq> [] \<and> \<not> (length cs = 1 \<and> is_text (hd cs)))"

text \<open>Second pass; nodes that are not elements are left as they are.\<close>

fun markStaticRoots :: "node \<Rightarrow> bool \<Rightarrow> node" where
  "markStaticRoots (Element e cs conds) isInFor =
     (let e1 = (if truthy_b (static e) \<or> truthy_b (once e)
                then e\<lparr>staticInFor := Some isInFor\<rparr> else e)
      in
      if qualifies e cs then Element (e1\<lparr>staticRoot := Some True\<rparr>) cs conds
      else
        Element (e1\<lparr>staticRoot := Some False\<rparr>)
          (map (\<lambda>ch. markStaticRoots ch (isInFor \<or> truthy_s (for_e e))) cs)
          (map_option (map (\<lambda>b. markStaticRoots b isInFor)) conds))"
| "markStaticRoots (Expression s) isInFor = Expression s"
| "markStaticRoots (Text s) isInFor = Text s"

text \<open>Selectors on a node, for stating what became of it.\<close>

fun children_of :: "node \<Rightarrow> node list" where
  "children_of (Element e cs conds) = cs"
| "children_of n = []"

fun branches_of :: "node \<Rightarrow> node list" where
  "branches_of (Element e cs conds) = (case conds of None \<Rightarrow> [] | Some bs \<Rightarrow> bs)"
| "branches_of n = []"

fun ifConditions_of :: "node \<Rightarrow> node list option" where
  "ifConditions_of (Element e cs conds) = conds"
| "ifConditions_of n = None"

fun staticRoot_of :: "node \<Rightarrow> bool option" where
  "staticRoot_of (Element e cs conds) = staticRoot e"
| "staticRoot_of n = None"

fun staticInFor_of :: "node \<Rightarrow> bool option" where
  "staticInFor_of (Element e cs conds) = staticInFor e"
| "staticInFor_of n = None"

fun static_of :: "node \<Rightarrow> bool option" where
  "static_of (Element e cs conds) = static e"
| "static_of (Expression s) = s"
| "static_of (Text s) = s"

section \<open>Values, objects and the state of the observer\<close>

text \<open>
  The sources are src/core/observer/dep.js (\<open>Dep\<close>) and the observer module
  (\<open>Observer\<close>, \<open>observe\<close>, \<open>defineReactive\<close>, \<open>set\<close>), which is the second
  module in the file src/platforms/web/compiler/directives/model.js.
\<close>

text \<open>
  JavaScript values. Numbers are the integers and \<open>NaN\<close>; an object, an array or a
  function is a reference into the object heap. Observer and Dep instances are not
  values of the model: they live in stores of their own.
\<close>

datatype val = Undefined | Null | Bool bool | Num int | NaN | Str string | Ref nat

text \<open>
  Strict equality \<open>===\<close>: \<open>NaN\<close> differs from everything, itself included; two
  references are equal when they are the same address.
\<close>

fun strict_eq :: "val \<Rightarrow> val \<Rightarrow> bool" where
  "strict_eq NaN b = False"
| "strict_eq a NaN = False"
| "strict_eq a b = (a = b)"

fun truthy :: "val \<Rightarrow> bool" where
  "truthy Undefined = False"
| "truthy Null = False"
| "truthy (Bool b) = b"
| "truthy (Num n) = (n \<noteq> 0)"
| "truthy NaN = False"
| "truthy (Str s) = (s \<noteq> [])"
| "truthy (Ref a) = True"

text \<open>
  An accessor function is either a function of the application, known by a number and
  run by the parameters below, or the \<open>reactiveGetter\<close> / \<open>reactiveSetter\<close> of the
  closure that one call of \<open>defineReactive\<close> created, known by the index of that closure.
\<close>

datatype getter = UserGet nat | ReactiveGet nat

datatype setter = UserSet nat | ReactiveSet nat

text \<open>
  Property descriptors: a data property (value, writable, enumerable, configurable) or
  an accessor property (get, set, enumerable, configurable).
\<close>

datatype descriptor =
    Data val bool bool bool
  | Accessor "getter option" "setter option" bool bool

fun enumerable :: "descriptor \<Rightarrow> bool" where
  "enumerable (Data v w e c) = e"
| "enumerable (Accessor g st e c) = e"

fun configurable :: "descriptor \<Rightarrow> bool" where
  "configurable (Data v w e c) = c"
| "configurable (Accessor g st e c) = c"

fun desc_get :: "descriptor \<Rightarrow> getter option" where
  "desc_get (Data v w e c) = None"
| "desc_get (Accessor g st e c) = g"

fun desc_set :: "descriptor \<Rightarrow> setter option" where
  "desc_set (Data v w e c) = None"
| "desc_set (Accessor g st e c) = st"

text \<open>
  What \<open>Array.isArray\<close>, \<open>instanceof VNode\<close>, \<open>typeof\<close> and
  \<open>Object.prototype.toString\<close> tell about an object.
\<close>

datatype objclass = PlainObject | ArrayObject | VNodeInstance | FunctionObject | OtherObject

text \<open>
  An object: its own properties in insertion order, its prototype, and the slot \<open>ob\<close>
  for the own property \<open>__ob__\<close> that \<open>def\<close> installs (non-enumerable, holding an
  Observer). The key \<open>__ob__\<close> is reserved for that slot: \<open>props\<close> has no entry of
  that name, and the operations below are meant for other keys (the properties of
  \<open>set\<close> are stated for keys other than \<open>__ob__\<close>). For an array, \<open>elems\<close>
  are its items (its \<open>length\<close> and index properties are not entries of \<open>props\<close>), and
  \<open>augmented\<close> tells that \<open>protoAugment\<close> or \<open>copyAugment\<close> has installed the
  intercepting array methods.
\<close>

record jsobj =
  cls :: objclass
  extensible :: bool
  proto :: "nat option"
  props :: "(string \<times> descriptor) list"
  ob :: "nat option"
  elems :: "val list"
  augmented :: bool

text \<open>
  The variables that the accessors of one \<open>defineReactive\<close> call close over:
  \<open>obj\<close>, \<open>dep\<close>, \<open>val\<close>, \<open>childOb\<close>, \<open>shallow\<close>, \<open>customSetter\<close>, \<open>getter\<close>,
  \<open>setter\<close>. Only \<open>val\<close> and \<open>childOb\<close> are ever assigned again. \<open>childOb\<close> is
  \<open>None\<close> for a falsy \<open>!shallow && observe(val)\<close>.
\<close>

record closure =
  c_obj :: nat
  c_dep :: nat
  c_val :: val
  c_childOb :: "nat option"
  c_shallow :: bool
  c_customSetter :: "nat option"
  c_getter :: "getter option"
  c_setter :: "setter option"

text \<open>An Observer instance: \<open>this.value\<close>, \<open>this.dep\<close>, \<open>this.vmCount\<close>.\<close>

record observer =
  ob_value :: nat
  ob_dep :: nat
  vmCount :: nat

text \<open>A subscriber: a Watcher, of which \<open>Dep\<close> reads the \<open>id\<close> and calls \<open>update\<close>.\<close>

record watcher =
  w_ref :: nat
  w_id :: int

text \<open>
  What a call ends in: a result, or what it throws. \<open>Thrown n\<close> is thrown by code of
  the application; \<open>Exhausted\<close> marks a run that was cut at the depth bound of
  \<open>observe_n\<close> below.
\<close>

datatype exn = TypeError | Thrown nat | Exhausted

datatype 'a res = Ret 'a | Throw exn

text \<open>
  What a run leaves behind for an observer of the program: \<open>Notified d\<close> when
  \<open>notify\<close> is entered on the Dep with id \<open>d\<close>, \<open>Updated w\<close> when \<open>w.update()\<close> is
  called, \<open>Warned m\<close> when \<open>warn(m)\<close> is called.
\<close>

datatype event = Notified nat | Updated watcher | Warned string

text \<open>
  The state: the object heap (an address is an index), the closures of
  \<open>defineReactive\<close>, the Observer instances, the subscriber list of every Dep (a Dep is
  known by its \<open>id\<close>; \<open>uid\<close> is the counter of dep.js), \<open>shouldObserve\<close>, and the
  trace of events.
\<close>

record state =
  objs :: "jsobj list"
  cells :: "closure list"
  observers :: "observer list"
  subs :: "nat \<Rightarrow> watcher list"
  uid :: nat
  shouldObserve :: bool
  trace :: "event list"

text \<open>
  The build and configuration: \<open>process.env.NODE_ENV === 'production'\<close>,
  \<open>config.async\<close>, \<open>isServerRendering()\<close>, and the address of \<open>Object.prototype\<close>.
\<close>

record env =
  production :: bool
  async :: bool
  isServerRendering :: bool
  objectPrototype :: nat

text \<open>
  Code that is not part of the sources, as parameters: \<open>Watcher.update\<close>; the getters,
  setters and \<open>customSetter\<close>s of the application; \<open>isValidArrayIndex\<close> of the utilities
  (giving the index when the key is one); and the \<open>splice\<close> method of an array (the
  native one, or the interceptor of ./array). A getter is taken to be free of side
  effects. The others transform the state and may throw.
\<close>

record ext =
  update :: "watcher \<Rightarrow> state \<Rightarrow> exn option \<times> state"
  getter_call :: "nat \<Rightarrow> nat \<Rightarrow> state \<Rightarrow> val"
  setter_call :: "nat \<Rightarrow> nat \<Rightarrow> val \<Rightarrow> state \<Rightarrow> exn option \<times> state"
  customSetter_call :: "nat \<Rightarrow> state \<Rightarrow> exn option \<times> state"
  isValidArrayIndex :: "string \<Rightarrow> nat option"
  splice :: "nat \<Rightarrow> nat \<Rightarrow> val \<Rightarrow> state \<Rightarrow> exn option \<times> state"

text \<open>
  Running a parameter: the trace is written by the modelled code only, so whatever the
  parameter did to it is dropped.
\<close>

definition run_ext :: "(state \<Rightarrow> exn option \<times> state) \<Rightarrow> state \<Rightarrow> unit res \<times> state" where
  "run_ext f s =
     (case f s of
        (None, s') \<Rightarrow> (Ret (), s'\<lparr>trace := trace s\<rparr>)
      | (Some ex, s') \<Rightarrow> (Throw ex, s'\<lparr>trace := trace s\<rparr>))"

definition emit :: "event \<Rightarrow> state \<Rightarrow> state" where
  "emit ev s = s\<lparr>trace := trace s @ [ev]\<rparr>"

subsection \<open>Reading the heap\<close>

definition obj_at :: "state \<Rightarrow> nat \<Rightarrow> jsobj option" where
  "obj_at s a = (if a < length (objs s) then Some (objs s ! a) else None)"

definition observer_at :: "state \<Rightarrow> nat \<Rightarrow> observer option" where
  "observer_at s r = (if r < length (observers s) then Some (observers s ! r) else None)"

definition getOwnPropertyDescriptor :: "state \<Rightarrow> nat \<Rightarrow> string \<Rightarrow> descriptor option" where
  "getOwnPropertyDescriptor s a k =
     (case obj_at s a of None \<Rightarrow> None | Some j \<Rightarrow> map_of (props j) k)"

text \<open>
  The walk along the prototype chain, giving the holder of the property and its
  descriptor. The chain of prototypes has no cycle, so it is no longer than the heap:
  the bound of \<open>lookup\<close> never cuts a walk short.
\<close>

fun find_prop :: "nat \<Rightarrow> state \<Rightarrow> nat \<Rightarrow> string \<Rightarrow> (nat \<times> descriptor) option" where
  "find_prop 0 s a k = None"
| "find_prop (Suc n) s a k =
     (case obj_at s a of
        None \<Rightarrow> None
      | Some j \<Rightarrow>
          (case map_of (props j) k of
             Some d \<Rightarrow> Some (a, d)
           | None \<Rightarrow> (case proto j of None \<Rightarrow> None | Some p \<Rightarrow> find_prop n s p k)))"

definition lookup :: "state \<Rightarrow> nat \<Rightarrow> string \<Rightarrow> (nat \<times> descriptor) option" where
  "lookup s a k = find_prop (length (objs s)) s a k"

text \<open>\<open>key in target\<close>.\<close>

definition has_property :: "state \<Rightarrow> nat \<Rightarrow> string \<Rightarrow> bool" where
  "has_property s a k = (lookup s a k \<noteq> None)"

text \<open>\<open>target.__ob__\<close>: the slot of the nearest object of the chain that has one.\<close>

fun find_ob :: "nat \<Rightarrow> state \<Rightarrow> nat \<Rightarrow> nat option" where
  "find_ob 0 s a = None"
| "find_ob (Suc n) s a =
     (case obj_at s a of
        None \<Rightarrow> None
      | Some j \<Rightarrow>
          (case ob j of
             Some r \<Rightarrow> Some r
           | None \<Rightarrow> (case proto j of None \<Rightarrow> None | Some p \<Rightarrow> find_ob n s p)))"

definition get_ob :: "state \<Rightarrow> nat \<Rightarrow> nat option" where
  "get_ob s a = find_ob (length (objs s)) s a"

text \<open>
  The value that \<open>reactiveGetter\<close> returns: \<open>getter ? getter.call(obj) : val\<close>. A
  closure captures accessors that existed before it was created, so the closure of a
  captured \<open>reactiveGetter\<close> has a smaller index. The registration of the active
  \<open>Dep.target\<close>, which \<open>reactiveGetter\<close> performs through \<open>Watcher.addDep\<close>, is not part
  of the model: a read is modelled by the value it gives.
\<close>

function reactiveGetter :: "ext \<Rightarrow> state \<Rightarrow> nat \<Rightarrow> val" where
  "reactiveGetter x s c =
     (if c < length (cells s) then
        (case c_getter (cells s ! c) of
           None \<Rightarrow> c_val (cells s ! c)
         | Some (UserGet u) \<Rightarrow> getter_call x u (c_obj (cells s ! c)) s
         | Some (ReactiveGet c') \<Rightarrow> (if c' < c then reactiveGetter x s c' else Undefined))
      else Undefined)"
  by pat_completeness auto
termination
  by (relation "measure (\<lambda>(x, s, c). c)") auto

declare reactiveGetter.simps [simp del]

definition call_getter :: "ext \<Rightarrow> state \<Rightarrow> getter \<Rightarrow> nat \<Rightarrow> val" where
  "call_getter x s g this =
     (case g of UserGet u \<Rightarrow> getter_call x u this s | ReactiveGet c \<Rightarrow> reactiveGetter x s c)"

text \<open>\<open>obj[key]\<close> as a read.\<close>

definition js_get :: "ext \<Rightarrow> state \<Rightarrow> nat \<Rightarrow> string \<Rightarrow> val" where
  "js_get x s a k =
     (case lookup s a k of
        None \<Rightarrow> Undefined
      | Some (h, Data v w e c) \<Rightarrow> v
      | Some (h, Accessor None st e c) \<Rightarrow> Undefined
      | Some (h, Accessor (Some g) st e c) \<Rightarrow> call_getter x s g a)"

text \<open>\<open>isObject\<close> of the utilities: \<open>obj !== null && typeof obj === 'object'\<close>.\<close>

definition isObject :: "state \<Rightarrow> val \<Rightarrow> bool" where
  "isObject s v =
     (case v of
        Ref a \<Rightarrow> (case obj_at s a of None \<Rightarrow> False | Some j \<Rightarrow> cls j \<noteq> FunctionObject)
      | _ \<Rightarrow> False)"

fun isUndef :: "val \<Rightarrow> bool" where
  "isUndef Undefined = True"
| "isUndef Null = True"
| "isUndef v = False"

fun isPrimitive :: "val \<Rightarrow> bool" where
  "isPrimitive (Str s) = True"
| "isPrimitive (Num n) = True"
| "isPrimitive NaN = True"
| "isPrimitive (Bool b) = True"
| "isPrimitive v = False"

text \<open>The number of objects that carry no Observer.\<close>

definition unobserved :: "state \<Rightarrow> nat" where
  "unobserved s = length (filter (\<lambda>j. ob j = None) (objs s))"

subsection \<open>Dep (src/core/observer/dep.js)\<close>

text \<open>\<open>new Dep()\<close>: \<open>this.id = uid++; this.subs = []\<close>.\<close>

definition new_Dep :: "state \<Rightarrow> nat \<times> state" where
  "new_Dep s = (uid s, s\<lparr>uid := Suc (uid s), subs := (subs s)(uid s := [])\<rparr>)"

text \<open>
  The loop of \<open>notify\<close> over the copied list: \<open>subs[i].update()\<close>. Nothing catches what
  \<open>update\<close> throws, so the loop ends there.
\<close>

fun update_each :: "ext \<Rightarrow> watcher list \<Rightarrow> state \<Rightarrow> unit res \<times> state" where
  "update_each x [] s = (Ret (), s)"
| "update_each x (w # ws) s =
     (case run_ext (update x w) (emit (Updated w) s) of
        (Throw ex, s') \<Rightarrow> (Throw ex, s')
      | (Ret u, s') \<Rightarrow> update_each x ws s')"

text \<open>
  The order of the visit: the copy \<open>this.subs.slice()\<close>, sorted by
  \<open>(a, b) => a.id - b.id\<close> when \<open>process.env.NODE_ENV !== 'production' && !config.async\<close>.
  The sort is stable, as \<open>Array.prototype.sort\<close> is.
\<close>

definition visit_order :: "env \<Rightarrow> watcher list \<Rightarrow> watcher list" where
  "visit_order e snapshot =
     (if \<not> production e \<and> \<not> async e then sort_key w_id snapshot else snapshot)"

definition notify :: "env \<Rightarrow> ext \<Rightarrow> nat \<Rightarrow> state \<Rightarrow> unit res \<times> state" where
  "notify e x d s = update_each x (visit_order e (subs s d)) (emit (Notified d) s)"

subsection \<open>Writing the heap\<close>

definition set_obj :: "nat \<Rightarrow> jsobj \<Rightarrow> state \<Rightarrow> state" where
  "set_obj a j s = s\<lparr>objs := (objs s)[a := j]\<rparr>"

fun upd_prop ::
  "string \<Rightarrow> descriptor \<Rightarrow> (string \<times> descriptor) list \<Rightarrow> (string \<times> descriptor) list" where
  "upd_prop k d [] = [(k, d)]"
| "upd_prop k d ((k', d') # ps) =
     (if k' = k then (k, d) # ps else (k', d') # upd_prop k d ps)"

text \<open>
  \<open>Object.defineProperty(obj, key, descriptor)\<close> with a full descriptor: it replaces a
  configurable own property at its place, adds a new one to an extensible object, and
  throws a TypeError otherwise.
\<close>

definition defineProperty :: "nat \<Rightarrow> string \<Rightarrow> descriptor \<Rightarrow> state \<Rightarrow> unit res \<times> state" where
  "defineProperty a k d s =
     (case obj_at s a of
        None \<Rightarrow> (Throw TypeError, s)
      | Some j \<Rightarrow>
          if (case map_of (props j) k of Some old \<Rightarrow> configurable old | None \<Rightarrow> extensible j)
          then (Ret (), set_obj a (j\<lparr>props := upd_prop k d (props j)\<rparr>) s)
          else (Throw TypeError, s))"

text \<open>\<open>def(value, '__ob__', this)\<close>, for the Observer with index \<open>r\<close>.\<close>

definition def_ob :: "nat \<Rightarrow> nat \<Rightarrow> state \<Rightarrow> unit res \<times> state" where
  "def_ob a r s =
     (case obj_at s a of
        None \<Rightarrow> (Throw TypeError, s)
      | Some j \<Rightarrow>
          if ob j = None \<and> \<not> extensible j then (Throw TypeError, s)
          else (Ret (), set_obj a (j\<lparr>ob := Some r\<rparr>) s))"

text \<open>\<open>Object.keys(obj)\<close>: the own enumerable keys.\<close>

definition object_keys :: "jsobj \<Rightarrow> string list" where
  "object_keys j = map fst (filter (\<lambda>p. enumerable (snd p)) (props j))"

subsection \<open>observe, Observer and defineReactive\<close>

text \<open>
  \<open>observe\<close>, the constructor of \<open>Observer\<close>, \<open>walk\<close>, \<open>observeArray\<close> and
  \<open>defineReactive\<close> call one another. Each is first written over the function \<open>obs\<close>
  that stands for the inner call \<open>observe(val)\<close>; \<open>observe_n\<close> then closes the knot by
  recursion on the depth of nested \<open>observe\<close> calls that it may still open, and ends in
  \<open>Throw Exhausted\<close> when none is left.
\<close>

type_synonym observe_fn = "val \<Rightarrow> state \<Rightarrow> nat option res \<times> state"

text \<open>\<open>!shallow && observe(val)\<close>, a falsy result being \<open>None\<close>.\<close>

definition observe_unless :: "bool \<Rightarrow> observe_fn \<Rightarrow> val \<Rightarrow> state \<Rightarrow> nat option res \<times> state" where
  "observe_unless shallow obs v s = (if shallow then (Ret None, s) else obs v s)"

text \<open>
  \<open>defineReactive(obj, key, val, customSetter, shallow)\<close>. \<open>valarg\<close> is \<open>None\<close> for a
  call with two arguments (\<open>arguments.length === 2\<close>). The new accessors are the
  \<open>reactiveGetter\<close> and \<open>reactiveSetter\<close> of a new closure.
\<close>

definition defineReactive_with ::
  "observe_fn \<Rightarrow> ext \<Rightarrow> nat \<Rightarrow> string \<Rightarrow> val option \<Rightarrow> nat option \<Rightarrow> bool \<Rightarrow> state
     \<Rightarrow> unit res \<times> state" where
  "defineReactive_with obs x a k valarg customSetter shallow s =
     (let (d, s1) = new_Dep s;
          property = getOwnPropertyDescriptor s1 a k
      in
      if (case property of Some p \<Rightarrow> \<not> configurable p | None \<Rightarrow> False) then (Ret (), s1)
      else
        let getter = (case property of Some p \<Rightarrow> desc_get p | None \<Rightarrow> None);
            setter = (case property of Some p \<Rightarrow> desc_set p | None \<Rightarrow> None);
            v = (case valarg of
                   Some v0 \<Rightarrow> v0
                 | None \<Rightarrow>
                     if getter = None \<or> setter \<noteq> None then js_get x s1 a k else Undefined)
        in
        (case observe_unless shallow obs v s1 of
           (Throw ex, s2) \<Rightarrow> (Throw ex, s2)
         | (Ret childOb, s2) \<Rightarrow>
             defineProperty a k
               (Accessor (Some (ReactiveGet (length (cells s2))))
                  (Some (ReactiveSet (length (cells s2)))) True True)
               (s2\<lparr>cells := cells s2 @
                  [\<lparr>c_obj = a, c_dep = d, c_val = v, c_childOb = childOb,
                    c_shallow = shallow, c_customSetter = customSetter,
                    c_getter = getter, c_setter = setter\<rparr>]\<rparr>)))"

text \<open>\<open>walk\<close>: \<open>defineReactive(obj, keys[i])\<close> for every key.\<close>

fun walk_with :: "observe_fn \<Rightarrow> ext \<Rightarrow> nat \<Rightarrow> string list \<Rightarrow> state \<Rightarrow> unit res \<times> state" where
  "walk_with obs x a [] s = (Ret (), s)"
| "walk_with obs x a (k # ks) s =
     (case defineReactive_with obs x a k None None False s of
        (Throw ex, s') \<Rightarrow> (Throw ex, s')
      | (Ret u, s') \<Rightarrow> walk_with obs x a ks s')"

text \<open>\<open>observeArray\<close>: \<open>observe(items[i])\<close> for every item.\<close>

fun observeArray_with :: "observe_fn \<Rightarrow> val list \<Rightarrow> state \<Rightarrow> unit res \<times> state" where
  "observeArray_with obs [] s = (Ret (), s)"
| "observeArray_with obs (v # vs) s =
     (case obs v s of
        (Throw ex, s') \<Rightarrow> (Throw ex, s')
      | (Ret r, s') \<Rightarrow> observeArray_with obs vs s')"

text \<open>
  \<open>new Observer(value)\<close>, giving the index of the new Observer. An array is augmented
  and its items are observed; any other object is walked.
\<close>

definition new_Observer_with :: "observe_fn \<Rightarrow> ext \<Rightarrow> nat \<Rightarrow> state \<Rightarrow> nat res \<times> state" where
  "new_Observer_with obs x a s =
     (let (d, s1) = new_Dep s;
          r = length (observers s1);
          s2 = s1\<lparr>observers := observers s1 @ [\<lparr>ob_value = a, ob_dep = d, vmCount = 0\<rparr>]\<rparr>
      in
      case def_ob a r s2 of
        (Throw ex, s3) \<Rightarrow> (Throw ex, s3)
      | (Ret u, s3) \<Rightarrow>
          (case obj_at s3 a of
             None \<Rightarrow> (Throw TypeError, s3)
           | Some j \<Rightarrow>
               (case (if cls j = ArrayObject
                      then observeArray_with obs (elems j) (set_obj a (j\<lparr>augmented := True\<rparr>) s3)
                      else walk_with obs x a (object_keys j) s3) of
                  (Throw ex, s4) \<Rightarrow> (Throw ex, s4)
                | (Ret u', s4) \<Rightarrow> (Ret r, s4))))"

definition instanceof_VNode :: "state \<Rightarrow> val \<Rightarrow> bool" where
  "instanceof_VNode s v =
     (case v of
        Ref a \<Rightarrow> (case obj_at s a of None \<Rightarrow> False | Some j \<Rightarrow> cls j = VNodeInstance)
      | _ \<Rightarrow> False)"

text \<open>\<open>ob.vmCount++\<close>.\<close>

definition inc_vmCount :: "nat \<Rightarrow> state \<Rightarrow> state" where
  "inc_vmCount r s =
     s\<lparr>observers :=
         (observers s)[r := (observers s ! r)\<lparr>vmCount := Suc (vmCount (observers s ! r))\<rparr>]\<rparr>"

text \<open>
  The condition of \<open>observe\<close> for wrapping a value: \<open>shouldObserve &&
  !isServerRendering() && (Array.isArray(value) || isPlainObject(value)) &&
  Object.isExtensible(value) && !value._isVue\<close>.
\<close>

definition can_observe :: "env \<Rightarrow> ext \<Rightarrow> state \<Rightarrow> nat \<Rightarrow> jsobj \<Rightarrow> bool" where
  "can_observe e x s a j =
     (shouldObserve s \<and> \<not> isServerRendering e \<and>
      (cls j = ArrayObject \<or> cls j = PlainObject) \<and>
      extensible j \<and> \<not> truthy (js_get x s a ''_isVue''))"

text \<open>
  \<open>observe(value, asRootData)\<close>, giving the Observer of the value or \<open>None\<close> for
  \<open>undefined\<close>. \<open>ob j = Some r\<close> is
  \<open>hasOwn(value, '__ob__') && value.__ob__ instanceof Observer\<close>.
\<close>

definition observe_with ::
  "observe_fn \<Rightarrow> env \<Rightarrow> ext \<Rightarrow> val \<Rightarrow> bool \<Rightarrow> state \<Rightarrow> nat option res \<times> state" where
  "observe_with obs e x v asRootData s =
     (if \<not> isObject s v \<or> instanceof_VNode s v then (Ret None, s)
      else
        case v of
          Ref a \<Rightarrow>
            (case obj_at s a of
               None \<Rightarrow> (Ret None, s)
             | Some j \<Rightarrow>
                 (case (case ob j of
                          Some r \<Rightarrow> (Ret (Some r), s)
                        | None \<Rightarrow>
                            if can_observe e x s a j
                            then
                              (case new_Observer_with obs x a s of
                                 (Throw ex, s') \<Rightarrow> (Throw ex, s')
                               | (Ret r, s') \<Rightarrow> (Ret (Some r), s'))
                            else (Ret None, s)) of
                    (Throw ex, s') \<Rightarrow> (Throw ex, s')
                  | (Ret None, s') \<Rightarrow> (Ret None, s')
                  | (Ret (Some r), s') \<Rightarrow>
                      (Ret (Some r), if asRootData then inc_vmCount r s' else s')))
        | _ \<Rightarrow> (Ret None, s))"

primrec observe_n ::
  "nat \<Rightarrow> env \<Rightarrow> ext \<Rightarrow> val \<Rightarrow> bool \<Rightarrow> state \<Rightarrow> nat option res \<times> state" where
  "observe_n 0 e x v asRootData s = (Throw Exhausted, s)"
| "observe_n (Suc n) e x v asRootData s =
     observe_with (\<lambda>v' s'. observe_n n e x v' False s') e x v asRootData s"

text \<open>
  Every nested \<open>new Observer\<close> marks an object that carried no Observer, so one level
  more than the number of such objects is enough: \<open>observe\<close> always returns
  (\<open>observe_total\<close> below).
\<close>

definition observe :: "env \<Rightarrow> ext \<Rightarrow> val \<Rightarrow> bool \<Rightarrow> state \<Rightarrow> nat option res \<times> state" where
  "observe e x v asRootData s = observe_n (Suc (unobserved s)) e x v asRootData s"

definition defineReactive ::
  "env \<Rightarrow> ext \<Rightarrow> nat \<Rightarrow> string \<Rightarrow> val option \<Rightarrow> nat option \<Rightarrow> bool \<Rightarrow> state
     \<Rightarrow> unit res \<times> state" where
  "defineReactive e x a k valarg customSetter shallow s =
     defineReactive_with (\<lambda>v' s'. observe e x v' False s') x a k valarg customSetter shallow s"

subsection \<open>reactiveSetter\<close>

text \<open>\<open>newVal === value || (newVal !== newVal && value !== value)\<close>.\<close>

definition same_value :: "val \<Rightarrow> val \<Rightarrow> bool" where
  "same_value newVal v =
     (strict_eq newVal v \<or> (\<not> strict_eq newVal newVal \<and> \<not> strict_eq v v))"

text \<open>\<open>if (process.env.NODE_ENV !== 'production' && customSetter) customSetter()\<close>.\<close>

definition run_customSetter :: "env \<Rightarrow> ext \<Rightarrow> nat option \<Rightarrow> state \<Rightarrow> unit res \<times> state" where
  "run_customSetter e x cs s =
     (case cs of
        Some f \<Rightarrow> if \<not> production e then run_ext (customSetter_call x f) s else (Ret (), s)
      | None \<Rightarrow> (Ret (), s))"

text \<open>\<open>val = newVal\<close>, in the closure \<open>c\<close>.\<close>

definition store_val :: "nat \<Rightarrow> val \<Rightarrow> state \<Rightarrow> state" where
  "store_val c newVal s = s\<lparr>cells := (cells s)[c := (cells s ! c)\<lparr>c_val := newVal\<rparr>]\<rparr>"

text \<open>\<open>childOb = !shallow && observe(newVal); dep.notify()\<close>.\<close>

definition observe_and_notify ::
  "env \<Rightarrow> ext \<Rightarrow> nat \<Rightarrow> bool \<Rightarrow> nat \<Rightarrow> val \<Rightarrow> state \<Rightarrow> unit res \<times> state" where
  "observe_and_notify e x c shallow d newVal s =
     (case observe_unless shallow (\<lambda>v' s'. observe e x v' False s') newVal s of
        (Throw ex, s1) \<Rightarrow> (Throw ex, s1)
      | (Ret childOb, s1) \<Rightarrow>
          notify e x d
            (s1\<lparr>cells := (cells s1)[c := (cells s1 ! c)\<lparr>c_childOb := childOb\<rparr>]\<rparr>))"

text \<open>
  The \<open>reactiveSetter\<close> of closure \<open>c\<close>, called with \<open>newVal\<close>. A captured setter is a
  function of the application or the \<open>reactiveSetter\<close> of an older closure.
\<close>

function reactiveSetter :: "env \<Rightarrow> ext \<Rightarrow> nat \<Rightarrow> val \<Rightarrow> state \<Rightarrow> unit res \<times> state" where
  "reactiveSetter e x c newVal s =
     (if c < length (cells s) then
        (if same_value newVal (reactiveGetter x s c) then (Ret (), s)
         else
           (case run_customSetter e x (c_customSetter (cells s ! c)) s of
              (Throw ex, s1) \<Rightarrow> (Throw ex, s1)
            | (Ret u, s1) \<Rightarrow>
                if c_getter (cells s ! c) \<noteq> None \<and> c_setter (cells s ! c) = None
                then (Ret (), s1)
                else
                  (case (case c_setter (cells s ! c) of
                           None \<Rightarrow> (Ret (), store_val c newVal s1)
                         | Some (UserSet f) \<Rightarrow>
                             run_ext (setter_call x f (c_obj (cells s ! c)) newVal) s1
                         | Some (ReactiveSet c') \<Rightarrow>
                             if c' < c then reactiveSetter e x c' newVal s1
                             else (Throw TypeError, s1)) of
                     (Throw ex, s2) \<Rightarrow> (Throw ex, s2)
                   | (Ret u', s2) \<Rightarrow>
                       observe_and_notify e x c (c_shallow (cells s ! c))
                         (c_dep (cells s ! c)) newVal s2)))
      else (Throw TypeError, s))"
  by pat_completeness auto
termination
  by (relation "measure (\<lambda>(e, x, c, newVal, s). c)") auto

declare reactiveSetter.simps [simp del]

subsection \<open>Assignment and set\<close>

definition call_setter :: "env \<Rightarrow> ext \<Rightarrow> setter \<Rightarrow> nat \<Rightarrow> val \<Rightarrow> state \<Rightarrow> unit res \<times> state" where
  "call_setter e x st this v s =
     (case st of
        UserSet f \<Rightarrow> run_ext (setter_call x f this v) s
      | ReactiveSet c \<Rightarrow> reactiveSetter e x c v s)"

text \<open>Adding the data property that an assignment creates.\<close>

definition create_data :: "nat \<Rightarrow> string \<Rightarrow> val \<Rightarrow> state \<Rightarrow> unit res \<times> state" where
  "create_data a k v s =
     (case obj_at s a of
        None \<Rightarrow> (Throw TypeError, s)
      | Some j \<Rightarrow>
          if extensible j
          then (Ret (), set_obj a (j\<lparr>props := props j @ [(k, Data v True True True)]\<rparr>) s)
          else (Throw TypeError, s))"

text \<open>Writing the value of an own data property, at its place.\<close>

definition write_own :: "nat \<Rightarrow> string \<Rightarrow> descriptor \<Rightarrow> state \<Rightarrow> unit res \<times> state" where
  "write_own a k d s =
     (case obj_at s a of
        None \<Rightarrow> (Throw TypeError, s)
      | Some j \<Rightarrow> (Ret (), set_obj a (j\<lparr>props := upd_prop k d (props j)\<rparr>) s))"

text \<open>
  The assignment \<open>target[key] = val\<close> in strict code: the property is looked up along
  the prototype chain; a setter is called; a writable data property is written on the
  target (in place when it is the target's own, as a new own property when it is
  inherited or missing); anything else throws a TypeError.
\<close>

definition js_assign :: "env \<Rightarrow> ext \<Rightarrow> nat \<Rightarrow> string \<Rightarrow> val \<Rightarrow> state \<Rightarrow> unit res \<times> state" where
  "js_assign e x a k v s =
     (case lookup s a k of
        None \<Rightarrow> create_data a k v s
      | Some (h, Data v0 w en c) \<Rightarrow>
          if \<not> w then (Throw TypeError, s)
          else if h = a then write_own a k (Data v w en c) s
          else create_data a k v s
      | Some (h, Accessor g None en c) \<Rightarrow> (Throw TypeError, s)
      | Some (h, Accessor g (Some st) en c) \<Rightarrow> call_setter e x st a v s)"

text \<open>The statement \<open>target[key] = val; return val\<close>.\<close>

definition assign_and_return ::
  "env \<Rightarrow> ext \<Rightarrow> nat \<Rightarrow> string \<Rightarrow> val \<Rightarrow> state \<Rightarrow> val res \<times> state" where
  "assign_and_return e x a k v s =
     (case js_assign e x a k v s of
        (Throw ex, s1) \<Rightarrow> (Throw ex, s1)
      | (Ret u, s1) \<Rightarrow> (Ret v, s1))"

text \<open>\<open>defineReactive(ob.value, key, val); ob.dep.notify(); return val\<close>.\<close>

definition define_and_notify ::
  "env \<Rightarrow> ext \<Rightarrow> observer \<Rightarrow> string \<Rightarrow> val \<Rightarrow> state \<Rightarrow> val res \<times> state" where
  "define_and_notify e x obr k v s =
     (case defineReactive e x (ob_value obr) k (Some v) None False s of
        (Throw ex, s1) \<Rightarrow> (Throw ex, s1)
      | (Ret u, s1) \<Rightarrow>
          (case notify e x (ob_dep obr) s1 of
             (Throw ex, s2) \<Rightarrow> (Throw ex, s2)
           | (Ret u', s2) \<Rightarrow> (Ret v, s2)))"

definition root_warning :: string where
  "root_warning =
     ''Avoid adding reactive properties to a Vue instance or its root $data '' @
     ''at runtime - declare it upfront in the data option.''"

definition primitive_warning :: string where
  "primitive_warning =
     ''Cannot set reactive property on undefined, null, or primitive value''"

text \<open>
  \<open>const ob = target.__ob__\<close>: the Observer that the slot found along the chain refers
  to. Its \<open>value\<close> and \<open>dep\<close> are assigned by the constructor only, so they are read
  here once.
\<close>

definition target_ob :: "state \<Rightarrow> nat \<Rightarrow> observer option" where
  "target_ob s a = (case get_ob s a of None \<Rightarrow> None | Some r \<Rightarrow> observer_at s r)"

text \<open>\<open>target._isVue || (ob && ob.vmCount)\<close>.\<close>

definition is_root :: "ext \<Rightarrow> state \<Rightarrow> nat \<Rightarrow> bool" where
  "is_root x s a =
     (truthy (js_get x s a ''_isVue'') \<or>
      (case target_ob s a of None \<Rightarrow> False | Some obr \<Rightarrow> vmCount obr \<noteq> 0))"

text \<open>
  \<open>set(target, key, val)\<close>, named \<open>set_js\<close> here. On anything but an object,
  \<open>key in target\<close> throws a TypeError (after the warning of a development build). The
  text of the warnings is given without the rendering of the target.
\<close>

definition set_js :: "env \<Rightarrow> ext \<Rightarrow> val \<Rightarrow> string \<Rightarrow> val \<Rightarrow> state \<Rightarrow> val res \<times> state" where
  "set_js e x target key v s =
     (let s0 = (if \<not> production e \<and> (isUndef target \<or> isPrimitive target)
                then emit (Warned primitive_warning) s else s)
      in
      case target of
        Ref a \<Rightarrow>
          (case obj_at s0 a of
             None \<Rightarrow> (Throw TypeError, s0)
           | Some j \<Rightarrow>
               (case (if cls j = ArrayObject then isValidArrayIndex x key else None) of
                  Some i \<Rightarrow>
                    (case run_ext (splice x a i v)
                            (set_obj a
                               (j\<lparr>elems := elems j @ replicate (i - length (elems j)) Undefined\<rparr>)
                               s0) of
                       (Throw ex, s1) \<Rightarrow> (Throw ex, s1)
                     | (Ret u, s1) \<Rightarrow> (Ret v, s1))
                | None \<Rightarrow>
                    if has_property s0 a key \<and> \<not> has_property s0 (objectPrototype e) key
                    then assign_and_return e x a key v s0
                    else if is_root x s0 a
                    then (Ret v, if \<not> production e then emit (Warned root_warning) s0 else s0)
                    else
                      (case target_ob s0 a of
                         None \<Rightarrow> assign_and_return e x a key v s0
                       | Some obr \<Rightarrow> define_and_notify e x obr key v s0)))
      | _ \<Rightarrow> (Throw TypeError, s0))"

subsection \<open>What observing preserves\<close>

text \<open>
  Two relations between the state before and after a call, used to show that \<open>observe\<close>
  always returns. \<open>stable s s'\<close>: no object is added or removed, each keeps its class
  and extensibility, an object that carried an Observer carries the same one;
  closures, Observers and Deps are only added; the trace and \<open>shouldObserve\<close> are as
  they were. \<open>keeps A s s'\<close>: outside \<open>A\<close>, an object that carried an Observer is
  untouched. \<open>obs_ok n obs\<close>: the inner \<open>observe\<close> returns, within these relations,
  from every state with fewer than \<open>n\<close> objects without Observer.
\<close>

definition stable :: "state \<Rightarrow> state \<Rightarrow> bool" where
  "stable s s' \<longleftrightarrow>
     length (objs s') = length (objs s) \<and>
     (\<forall>b < length (objs s).
        cls (objs s' ! b) = cls (objs s ! b) \<and>
        extensible (objs s' ! b) = extensible (objs s ! b) \<and>
        (ob (objs s ! b) \<noteq> None \<longrightarrow> ob (objs s' ! b) = ob (objs s ! b))) \<and>
     length (cells s) \<le> length (cells s') \<and>
     (\<forall>c < length (cells s). cells s' ! c = cells s ! c) \<and>
     length (observers s) \<le> length (observers s') \<and>
     (\<forall>r < length (observers s). observers s' ! r = observers s ! r) \<and>
     uid s \<le> uid s' \<and>
     (\<forall>d < uid s. subs s' d = subs s d) \<and>
     trace s' = trace s \<and>
     shouldObserve s' = shouldObserve s"

definition keeps :: "nat set \<Rightarrow> state \<Rightarrow> state \<Rightarrow> bool" where
  "keeps A s s' \<longleftrightarrow>
     (\<forall>b < length (objs s). b \<notin> A \<longrightarrow> ob (objs s ! b) \<noteq> None \<longrightarrow> objs s' ! b = objs s ! b)"

definition obs_ok :: "nat \<Rightarrow> observe_fn \<Rightarrow> bool" where
  "obs_ok n obs \<longleftrightarrow>
     (\<forall>v t. unobserved t < n \<longrightarrow>
        (\<exists>r t'. obs v t = (Ret r, t') \<and> stable t t' \<and> keeps {} t t'))"

section \<open>Concrete inputs\<close>

text \<open>
  A platform with three reserved tags and the static keys of the web compiler
  (\<open>genStaticKeys('staticClass,staticStyle')\<close>), and an element as the parser creates it.
\<close>

definition web_ctx :: ctx where
  "web_ctx =
     \<lparr>isStaticKey = (\<lambda>k. k \<in> set [''type'', ''tag'', ''attrsList'', ''attrsMap'', ''plain'',
          ''parent'', ''children'', ''attrs'', ''start'', ''end'', ''rawAttrsMap'',
          ''staticClass'', ''staticStyle'']),
      isPlatformReservedTag = (\<lambda>t. t \<in> set [''div'', ''p'', ''span'', ''li'']),
      isBuiltInTag = (\<lambda>t. t \<in> set [''slot'', ''component''])\<rparr>"

definition plain_el :: "string \<Rightarrow> (string \<times> string option) list \<Rightarrow> el" where
  "plain_el t ps =
     \<lparr>tag = t, attrsMap = [], parent = ps, pre = None, hasBindings = None,
      if_e = None, for_e = None, once = None, static = None, staticInFor = None,
      staticRoot = None,
      other_keys = [''type'', ''tag'', ''attrsList'', ''attrsMap'', ''rawAttrsMap'',
        ''parent'', ''children'']\<rparr>"

text \<open>\<open><my-comp>{{ msg }}</my-comp>\<close>: a component with a dynamic slot child.\<close>

definition component_ast :: node where
  "component_ast = Element (plain_el ''my-comp'' []) [Expression None] None"

text \<open>
  After the first pass: \<open><div>a<span></span></div>\<close>, all static, and \<open><p>a</p>\<close>,
  a static element whose only child is a plain text.
\<close>

definition static_div :: node where
  "static_div =
     Element ((plain_el ''div'' [])\<lparr>static := Some True\<rparr>)
       [Text (Some True),
        Element ((plain_el ''span'' [(''div'', None)])\<lparr>static := Some True\<rparr>) [] None]
       None"

definition single_text_p :: node where
  "single_text_p =
     Element ((plain_el ''p'' [])\<lparr>static := Some True\<rparr>) [Text (Some True)] None"

text \<open>
  After the first pass:
  \<open><li v-for="i in items" v-if="ok"><span></span></li><p v-else></p>\<close>.
\<close>

definition loop_el :: el where
  "loop_el =
     (plain_el ''li'' [])\<lparr>for_e := Some ''items'', if_e := Some ''ok'', static := Some False\<rparr>"

definition loop_child :: node where
  "loop_child =
     Element ((plain_el ''span'' [(''li'', Some ''items'')])\<lparr>static := Some True\<rparr>) [] None"

definition else_block :: node where
  "else_block = Element ((plain_el ''p'' [])\<lparr>static := Some True\<rparr>) [] None"

definition loop_ast :: node where
  "loop_ast = Element loop_el [loop_child] (Some [else_block])"

text \<open>Builds, parameters and states for the observer.\<close>

definition dev_sync :: env where
  "dev_sync = \<lparr>production = False, async = False, isServerRendering = False,
     objectPrototype = 0\<rparr>"

definition prod_sync :: env where
  "prod_sync = \<lparr>production = True, async = False, isServerRendering = False,
     objectPrototype = 0\<rparr>"

text \<open>Parameters under which every \<open>update\<close> returns and touches nothing.\<close>

definition quiet_ext :: ext where
  "quiet_ext =
     \<lparr>update = (\<lambda>w s. (None, s)),
      getter_call = (\<lambda>u this s. Undefined),
      setter_call = (\<lambda>u this v s. (None, s)),
      customSetter_call = (\<lambda>f s. (None, s)),
      isValidArrayIndex = (\<lambda>k. None),
      splice = (\<lambda>a i v s. (None, s))\<rparr>"

text \<open>The \<open>update\<close> of the watcher with \<open>w_ref = 1\<close> throws.\<close>

definition failing_ext :: ext where
  "failing_ext =
     quiet_ext\<lparr>update := (\<lambda>w s. if w_ref w = 1 then (Some (Thrown 0), s) else (None, s))\<rparr>"

text \<open>Every \<open>update\<close> empties the subscriber list of Dep 0.\<close>

definition unsubscribing_ext :: ext where
  "unsubscribing_ext =
     quiet_ext\<lparr>update := (\<lambda>w s. (None, s\<lparr>subs := (subs s)(0 := [])\<rparr>))\<rparr>"

definition watcher1 :: watcher where
  "watcher1 = \<lparr>w_ref = 1, w_id = 1\<rparr>"

definition watcher2 :: watcher where
  "watcher2 = \<lparr>w_ref = 2, w_id = 2\<rparr>"

text \<open>Dep 0 with two subscribers, the younger one added first.\<close>

definition two_subs :: state where
  "two_subs =
     \<lparr>objs = [], cells = [], observers = [],
      subs = (\<lambda>d. if d = 0 then [watcher2, watcher1] else []),
      uid = 1, shouldObserve = True, trace = []\<rparr>"

text \<open>Dep 0 with the same subscribers in the order of their ids.\<close>

definition two_subs_in_order :: state where
  "two_subs_in_order = two_subs\<lparr>subs := (\<lambda>d. if d = 0 then [watcher1, watcher2] else [])\<rparr>"

text \<open>
  Dep 0 with three subscribers, and parameters under which the \<open>update\<close> of the
  watcher with \<open>w_ref = 2\<close> throws.
\<close>

definition watcher3 :: watcher where
  "watcher3 = \<lparr>w_ref = 3, w_id = 3\<rparr>"

definition second_fails_ext :: ext where
  "second_fails_ext =
     quiet_ext\<lparr>update := (\<lambda>w s. if w_ref w = 2 then (Some (Thrown 7), s) else (None, s))\<rparr>"

definition three_subs :: state where
  "three_subs = two_subs\<lparr>subs := (\<lambda>d. if d = 0 then [watcher3, watcher1, watcher2] else [])\<rparr>"

text \<open>
  A heap with \<open>Object.prototype\<close> at address 0, a built-in function at address 1, and
  the two records \<open>{a: 1, child: <3>}\<close> at address 2 and \<open>{b: 'x', up: <2>}\<close> at
  address 3, which refer to each other.
\<close>

definition builtin_fn :: jsobj where
  "builtin_fn =
     \<lparr>cls = FunctionObject, extensible = True, proto = None, props = [], ob = None,
      elems = [], augmented = False\<rparr>"

definition object_prototype :: jsobj where
  "object_prototype =
     \<lparr>cls = PlainObject, extensible = True, proto = None,
      props = [(''constructor'', Data (Ref 1) True False True),
               (''hasOwnProperty'', Data (Ref 1) True False True),
               (''toString'', Data (Ref 1) True False True),
               (''valueOf'', Data (Ref 1) True False True)],
      ob = None, elems = [], augmented = False\<rparr>"

definition record_obj :: "(string \<times> descriptor) list \<Rightarrow> jsobj" where
  "record_obj ps =
     \<lparr>cls = PlainObject, extensible = True, proto = Some 0, props = ps, ob = None,
      elems = [], augmented = False\<rparr>"

definition heap_of :: "jsobj list \<Rightarrow> state" where
  "heap_of js =
     \<lparr>objs = object_prototype # builtin_fn # js, cells = [], observers = [],
      subs = (\<lambda>d. []), uid = 0, shouldObserve = True, trace = []\<rparr>"

definition raw_heap :: state where
  "raw_heap =
     heap_of
       [record_obj [(''a'', Data (Num 1) True True True),
                    (''child'', Data (Ref 3) True True True)],
        record_obj [(''b'', Data (Str ''x'') True True True),
                    (''up'', Data (Ref 2) True True True)]]"

text \<open>The accessor property that \<open>defineReactive\<close> installs, and a closure without
  original accessors.\<close>

definition reactive :: "nat \<Rightarrow> descriptor" where
  "reactive c = Accessor (Some (ReactiveGet c)) (Some (ReactiveSet c)) True True"

definition plain_cell :: "nat \<Rightarrow> nat \<Rightarrow> val \<Rightarrow> nat option \<Rightarrow> closure" where
  "plain_cell a d v childOb =
     \<lparr>c_obj = a, c_dep = d, c_val = v, c_childOb = childOb, c_shallow = False,
      c_customSetter = None, c_getter = None, c_setter = None\<rparr>"

text \<open>The heap after \<open>observe\<close> of the record at address 2 (\<open>observe_raw_heap\<close> below).\<close>

definition observed_heap :: state where
  "observed_heap =
     (heap_of
        [(record_obj [(''a'', reactive 0), (''child'', reactive 3)])\<lparr>ob := Some 0\<rparr>,
         (record_obj [(''b'', reactive 1), (''up'', reactive 2)])\<lparr>ob := Some 1\<rparr>])
     \<lparr>cells := [plain_cell 2 1 (Num 1) None, plain_cell 3 4 (Str ''x'') None,
                plain_cell 3 5 (Ref 2) (Some 0), plain_cell 2 2 (Ref 3) (Some 1)],
      observers := [\<lparr>ob_value = 2, ob_dep = 0, vmCount = 0\<rparr>,
                    \<lparr>ob_value = 3, ob_dep = 3, vmCount = 0\<rparr>],
      uid := 6\<rparr>"

text \<open>The same heap when the record at address 2 is the root data of one instance.\<close>

definition root_heap :: state where
  "root_heap = inc_vmCount 0 observed_heap"

text \<open>A record with a property that is neither writable nor configurable.\<close>

definition sealed_heap :: state where
  "sealed_heap = heap_of [record_obj [(''id'', Data (Num 7) False True False)]]"

text \<open>
  A record \<open>{get full() { return 1 }}\<close>, before and after
  \<open>defineReactive(obj, 'full')\<close> (\<open>defineReactive_accessor_raw\<close> below), with the
  parameters under which every getter of the application returns 1.
\<close>

definition computed_ext :: ext where
  "computed_ext = quiet_ext\<lparr>getter_call := (\<lambda>u this s. Num 1)\<rparr>"

definition accessor_raw :: state where
  "accessor_raw = heap_of [record_obj [(''full'', Accessor (Some (UserGet 0)) None True True)]]"

definition accessor_heap :: state where
  "accessor_heap =
     (heap_of [record_obj [(''full'', reactive 0)]])
     \<lparr>cells := [\<lparr>c_obj = 2, c_dep = 0, c_val = Undefined, c_childOb = None,
                  c_shallow = False, c_customSetter = None,
                  c_getter = Some (UserGet 0), c_setter = None\<rparr>],
      uid := 1\<rparr>"

text \<open>
  The record \<open>{toString: 1}\<close> after \<open>observe\<close> (\<open>observe_shadow_raw\<close> below): its own
  key is also a key of \<open>Object.prototype\<close>.
\<close>

definition shadow_raw :: state where
  "shadow_raw = heap_of [record_obj [(''toString'', Data (Num 1) True True True)]]"

definition shadow_heap :: state where
  "shadow_heap =
     (heap_of [(record_obj [(''toString'', reactive 0)])\<lparr>ob := Some 0\<rparr>])
     \<lparr>cells := [plain_cell 2 1 (Num 1) None],
      observers := [\<lparr>ob_value = 2, ob_dep = 0, vmCount = 0\<rparr>],
      uid := 2\<rparr>"

text \<open>
  The same record after \<open>defineReactive(obj, 'toString')\<close> has been applied to it once
  more (\<open>defineReactive_shadow_heap\<close> below): the second closure wraps the accessors
  of the first.
\<close>

definition rewrapped_heap :: state where
  "rewrapped_heap =
     (heap_of [(record_obj [(''toString'', reactive 1)])\<lparr>ob := Some 0\<rparr>])
     \<lparr>cells := [plain_cell 2 1 (Num 1) None,
                \<lparr>c_obj = 2, c_dep = 2, c_val = Num 1, c_childOb = None, c_shallow = False,
                 c_customSetter = None, c_getter = Some (ReactiveGet 0),
                 c_setter = Some (ReactiveSet 0)\<rparr>],
      observers := [\<lparr>ob_value = 2, ob_dep = 0, vmCount = 0\<rparr>],
      uid := 3\<rparr>"

text \<open>
  A record that inherits from another record: \<open>base = {k: 1}\<close> at address 2 and
  \<open>Object.create(base)\<close> with the own property \<open>a: 1\<close> at address 3, before and after
  \<open>observe\<close> of the record at address 3 (\<open>observe_inherit_raw\<close> below), and the same
  heap when that record is the root data of one instance.
\<close>

definition inherit_raw :: state where
  "inherit_raw =
     heap_of
       [record_obj [(''k'', Data (Num 1) True True True)],
        (record_obj [(''a'', Data (Num 1) True True True)])\<lparr>proto := Some 2\<rparr>]"

definition inherit_heap :: state where
  "inherit_heap =
     (heap_of
        [record_obj [(''k'', Data (Num 1) True True True)],
         (record_obj [(''a'', reactive 0)])\<lparr>proto := Some 2, ob := Some 0\<rparr>])
     \<lparr>cells := [plain_cell 3 1 (Num 1) None],
      observers := [\<lparr>ob_value = 3, ob_dep = 0, vmCount = 0\<rparr>],
      uid := 2\<rparr>"

definition inherit_root_heap :: state where
  "inherit_root_heap = inc_vmCount 0 inherit_heap"

text \<open>
  The observed heap after \<open>Object.preventExtensions\<close> of the record at address 2.
\<close>

definition frozen_heap :: state where
  "frozen_heap =
     observed_heap\<lparr>objs := (objs observed_heap)[2 := (objs observed_heap ! 2)\<lparr>extensible := False\<rparr>]\<rparr>"


section \<open>Properties of the optimizer\<close>

lemma qualifies_iff:
  "qualifies e cs \<longleftrightarrow> static e = Some True \<and> cs \<noteq> [] \<and> (\<forall>s. cs \<noteq> [Text s])"
proof (cases cs)
  case Nil
  then show ?thesis by (simp add: qualifies_def)
next
  case (Cons n ns)
  then show ?thesis
    by (cases n; cases ns) (auto simp: qualifies_def truthy_b_def)
qed

text \<open>
  C4. In \<open>markStatic\<close>, an element whose tag is neither reserved by the platform nor
  \<open>slot\<close>, and that has no \<open>inline-template\<close> attribute, comes back with its children
  and its conditional branches exactly as they were (none of them is visited), and its
  \<open>static\<close> flag is its own \<open>isStatic\<close> result: the flag is the same whatever the
  children \<open>cs'\<close> and the branches \<open>bs'\<close> are.
\<close>

theorem markStatic_component_children_untouched:
  assumes "\<not> isPlatformReservedTag c (tag e)"
    and "tag e \<noteq> ''slot''"
    and "map_of (attrsMap e) ''inline-template'' = None"
  shows "markStatic c (Element e cs conds) =
           Element (e\<lparr>static := Some (isStatic c (Element e cs conds))\<rparr>) cs conds
         \<and> static_of (markStatic c (Element e cs conds)) =
             static_of (markStatic c (Element e cs' (map_option (\<lambda>bs. bs') conds)))"
  using assms by (cases conds) (simp_all add: slot_content_kept_def node_keys_def)

theorem markStatic_component_children_untouched_witness:
  "markStatic web_ctx component_ast =
     Element ((plain_el ''my-comp'' [])\<lparr>static := Some False\<rparr>) [Expression None] None"
  using markStatic_component_children_untouched
    [where c = web_ctx and e = "plain_el ''my-comp'' []" and cs = "[Expression None]"
       and conds = None and cs' = "[]"]
  by (simp add: web_ctx_def plain_el_def component_ast_def truthy_b_def)

text \<open>
  C5. In \<open>markStaticRoots\<close>, an element is marked \<open>staticRoot = true\<close> if and only if
  it is static, has at least one child, and its children are not exactly one plain
  text. When it is marked a static root, its children and conditional branches come
  back as they were (the recursion stops); every other element that is visited gets
  \<open>staticRoot = false\<close>.
\<close>

theorem markStaticRoots_root_iff:
  "(staticRoot_of (markStaticRoots (Element e cs conds) f) = Some True \<longleftrightarrow>
      static e = Some True \<and> cs \<noteq> [] \<and> (\<forall>s. cs \<noteq> [Text s]))
   \<and> (staticRoot_of (markStaticRoots (Element e cs conds) f) = Some True \<longrightarrow>
        children_of (markStaticRoots (Element e cs conds) f) = cs \<and>
        ifConditions_of (markStaticRoots (Element e cs conds) f) = conds)
   \<and> (staticRoot_of (markStaticRoots (Element e cs conds) f) \<noteq> Some True \<longrightarrow>
        staticRoot_of (markStaticRoots (Element e cs conds) f) = Some False)"
  by (cases "qualifies e cs") (use qualifies_iff[of e cs] in \<open>simp_all add: Let_def\<close>)

theorem markStaticRoots_root_iff_witness:
  "staticRoot_of (markStaticRoots static_div False) = Some True
   \<and> children_of (markStaticRoots static_div False) = children_of static_div
   \<and> staticRoot_of (markStaticRoots single_text_p False) = Some False"
  using markStaticRoots_root_iff
      [where e = "(plain_el ''div'' [])\<lparr>static := Some True\<rparr>"
         and cs = "[Text (Some True),
            Element ((plain_el ''span'' [(''div'', None)])\<lparr>static := Some True\<rparr>) [] None]"
         and conds = None and f = False]
    markStaticRoots_root_iff
      [where e = "(plain_el ''p'' [])\<lparr>static := Some True\<rparr>" and cs = "[Text (Some True)]"
         and conds = None and f = False]
  by (simp add: static_div_def single_text_p_def)

text \<open>
  C9, as the specification states it, fails: a conditional branch of an element with a
  loop directive is visited with the incoming flag, not with the flag of the children.
  In \<open><li v-for v-if><span/></li><p v-else/></p>\<close> visited outside any loop, the child
  \<open>span\<close> gets \<open>staticInFor = true\<close> and the branch \<open>p\<close> gets \<open>staticInFor = false\<close>.
\<close>

theorem markStaticRoots_branch_flag_counterexample:
  "truthy_s (for_e loop_el)
   \<and> map staticInFor_of (children_of (markStaticRoots loop_ast False)) = [Some True]
   \<and> map staticInFor_of (branches_of (markStaticRoots loop_ast False)) = [Some False]
   \<and> branches_of (markStaticRoots loop_ast False) \<noteq>
       [markStaticRoots else_block (False \<or> truthy_s (for_e loop_el))]"
  by (simp add: loop_ast_def loop_el_def loop_child_def else_block_def plain_el_def
      qualifies_def truthy_b_def truthy_s_def)

text \<open>
  C9, amended. When an element is not marked a static root, \<open>markStaticRoots\<close> visits
  its children with the flag \<open>isInFor || !!node.for\<close>, and its conditional branches
  from index 1 on with the incoming flag \<open>isInFor\<close> unchanged.
\<close>

theorem markStaticRoots_recursion_flags:
  assumes "\<not> (static e = Some True \<and> cs \<noteq> [] \<and> (\<forall>s. cs \<noteq> [Text s]))"
  shows "children_of (markStaticRoots (Element e cs conds) f) =
           map (\<lambda>ch. markStaticRoots ch (f \<or> truthy_s (for_e e))) cs
         \<and> ifConditions_of (markStaticRoots (Element e cs conds) f) =
             map_option (map (\<lambda>b. markStaticRoots b f)) conds"
proof -
  from assms have "\<not> qualifies e cs"
    using qualifies_iff[of e cs] by blast
  then show ?thesis by (simp add: Let_def)
qed

theorem markStaticRoots_recursion_flags_witness:
  "children_of (markStaticRoots loop_ast False) = [markStaticRoots loop_child True]
   \<and> ifConditions_of (markStaticRoots loop_ast False) =
       Some [markStaticRoots else_block False]"
  using markStaticRoots_recursion_flags
    [where e = loop_el and cs = "[loop_child]" and f = False and conds = "Some [else_block]"]
  by (simp add: loop_ast_def loop_el_def plain_el_def truthy_s_def)

section \<open>Properties of Dep.notify\<close>

lemma run_ext_trace:
  "run_ext f s = (r, s') \<Longrightarrow> trace s' = trace s"
  by (auto simp: run_ext_def split: prod.splits option.splits)

lemma update_each_trace:
  "update_each x ws s = (r, s') \<Longrightarrow>
     \<exists>vis. trace s' = trace s @ map Updated vis \<and> prefix vis ws \<and> (r = Ret () \<longrightarrow> vis = ws)"
proof (induction ws arbitrary: s)
  case Nil
  then show ?case by auto
next
  case (Cons w ws)
  obtain r1 s1 where run: "run_ext (update x w) (emit (Updated w) s) = (r1, s1)"
    by (cases "run_ext (update x w) (emit (Updated w) s)")
  have tr1: "trace s1 = trace s @ [Updated w]"
    using run_ext_trace[OF run] by (simp add: emit_def)
  show ?case
  proof (cases r1)
    case (Throw ex)
    with Cons.prems run have "r = Throw ex" "s' = s1" by auto
    then show ?thesis using tr1 by (intro exI[of _ "[w]"]) auto
  next
    case (Ret u)
    with Cons.prems run have "update_each x ws s1 = (r, s')" by auto
    from Cons.IH[OF this] obtain vis where
      "trace s' = trace s1 @ map Updated vis" "prefix vis ws" "r = Ret () \<longrightarrow> vis = ws"
      by blast
    then show ?thesis using tr1 by (intro exI[of _ "w # vis"]) auto
  qed
qed

lemma update_each_append:
  "update_each x (front @ ws) s =
     (case update_each x front s of
        (Throw ex, s') \<Rightarrow> (Throw ex, s')
      | (Ret u, s') \<Rightarrow> update_each x ws s')"
  by (induction front arbitrary: s) (auto split: prod.splits res.splits)

lemma update_each_first_failure:
  "update_each x ws s = (Throw ex, s') \<Longrightarrow>
     \<exists>front w rest s1 t. ws = front @ w # rest \<and> update_each x front s = (Ret (), s1) \<and>
        update x w (emit (Updated w) s1) = (Some ex, t) \<and>
        s' = t\<lparr>trace := trace s @ map Updated (front @ [w])\<rparr>"
proof (induction ws arbitrary: s)
  case Nil
  then show ?case by auto
next
  case (Cons w ws)
  obtain r1 s1 where run: "run_ext (update x w) (emit (Updated w) s) = (r1, s1)"
    by (cases "run_ext (update x w) (emit (Updated w) s)")
  have tr1: "trace s1 = trace s @ [Updated w]"
    using run_ext_trace[OF run] by (simp add: emit_def)
  show ?case
  proof (cases r1)
    case (Throw ex1)
    with Cons.prems run have e: "ex1 = ex" "s' = s1" by auto
    from run Throw e obtain t where "update x w (emit (Updated w) s) = (Some ex, t)"
      "s1 = t\<lparr>trace := trace s @ [Updated w]\<rparr>"
      by (auto simp: run_ext_def emit_def split: prod.splits option.splits)
    then show ?thesis using e
      by (intro exI[of _ "[]"] exI[of _ w] exI[of _ ws] exI[of _ s] exI[of _ t]) auto
  next
    case (Ret u)
    with Cons.prems run have "update_each x ws s1 = (Throw ex, s')" by auto
    from Cons.IH[OF this] obtain front w' rest s2 t where
      "ws = front @ w' # rest" "update_each x front s1 = (Ret (), s2)"
      "update x w' (emit (Updated w') s2) = (Some ex, t)"
      "s' = t\<lparr>trace := trace s1 @ map Updated (front @ [w'])\<rparr>"
      by blast
    then show ?thesis using tr1 run Ret
      by (intro exI[of _ "w # front"] exI[of _ w'] exI[of _ rest] exI[of _ s2] exI[of _ t]) auto
  qed
qed

text \<open>
  C1, as the specification states it, fails: with \<open>config.async\<close> off in a production
  build, \<open>notify\<close> does not sort. The subscriber with id 2, which was added first, is
  updated before the subscriber with id 1.
\<close>

theorem notify_production_order_counterexample:
  "production prod_sync \<and> \<not> async prod_sync
   \<and> trace (snd (notify prod_sync quiet_ext 0 two_subs)) =
       [Notified 0, Updated watcher2, Updated watcher1]
   \<and> \<not> sorted (map w_id [watcher2, watcher1])"
  by (simp add: notify_def visit_order_def prod_sync_def quiet_ext_def two_subs_def
      run_ext_def emit_def watcher1_def watcher2_def)

text \<open>
  C1, amended. When \<open>Dep.notify()\<close> returns, every entry that the subscriber list had
  at the start of the call has been asked to \<open>update()\<close> exactly once, whatever the
  updates did to the list meanwhile. The visit is in ascending order of the ids when
  the build is not a production build and \<open>config.async\<close> is off, and in the order of
  the list otherwise.
\<close>

theorem notify_visits_snapshot:
  assumes "notify e x d s = (Ret u, s')"
  shows "\<exists>vis. trace s' = trace s @ Notified d # map Updated vis \<and>
           mset vis = mset (subs s d) \<and>
           (if \<not> production e \<and> \<not> async e
            then sorted (map w_id vis) \<and> vis = sort_key w_id (subs s d)
            else vis = subs s d)"
proof -
  from assms have "update_each x (visit_order e (subs s d)) (emit (Notified d) s) = (Ret (), s')"
    by (simp add: notify_def)
  from update_each_trace[OF this]
  have "trace s' = trace s @ Notified d # map Updated (visit_order e (subs s d))"
    by (auto simp: emit_def)
  then show ?thesis
    by (intro exI[of _ "visit_order e (subs s d)"]) (auto simp: visit_order_def)
qed

theorem notify_visits_snapshot_witness:
  "trace (snd (notify dev_sync unsubscribing_ext 0 two_subs)) =
     [Notified 0, Updated watcher1, Updated watcher2]
   \<and> subs (snd (notify dev_sync unsubscribing_ext 0 two_subs)) 0 = []"
proof -
  obtain s' where n: "notify dev_sync unsubscribing_ext 0 two_subs = (Ret (), s')"
    by (simp add: notify_def visit_order_def dev_sync_def unsubscribing_ext_def quiet_ext_def
        two_subs_def run_ext_def emit_def watcher1_def watcher2_def)
  have s0: "subs s' 0 = []"
    using n
    by (auto simp: notify_def visit_order_def dev_sync_def unsubscribing_ext_def quiet_ext_def
        two_subs_def run_ext_def emit_def watcher1_def watcher2_def)
  from notify_visits_snapshot[OF n] obtain vis where
    "trace s' = trace two_subs @ Notified 0 # map Updated vis"
    "vis = sort_key w_id (subs two_subs 0)"
    by (auto simp: dev_sync_def)
  then have "trace s' = [Notified 0, Updated watcher1, Updated watcher2]"
    by (simp add: two_subs_def watcher1_def watcher2_def)
  with n s0 show ?thesis by simp
qed

text \<open>
  C3, as the specification states it, fails: \<open>notify\<close> catches nothing. When the
  \<open>update\<close> of the first subscriber throws, \<open>notify\<close> throws, and the second
  subscriber of the list is never asked to update.
\<close>

theorem notify_failure_stops_counterexample:
  "subs two_subs_in_order 0 = [watcher1, watcher2]
   \<and> fst (update failing_ext watcher1 two_subs_in_order) = Some (Thrown 0)
   \<and> notify dev_sync failing_ext 0 two_subs_in_order =
       (Throw (Thrown 0), two_subs_in_order\<lparr>trace := [Notified 0, Updated watcher1]\<rparr>)
   \<and> Updated watcher2 \<notin> set (trace (snd (notify dev_sync failing_ext 0 two_subs_in_order)))"
  by (simp add: notify_def visit_order_def dev_sync_def failing_ext_def quiet_ext_def
      two_subs_in_order_def two_subs_def run_ext_def emit_def watcher1_def watcher2_def)

text \<open>
  C3, amended. What one subscriber's \<open>update()\<close> throws leaves \<open>notify\<close> at once.
  Let the visit be \<open>front @ w # rest\<close>. When the updates of \<open>front\<close> have returned and
  the \<open>update\<close> of \<open>w\<close> throws, \<open>notify\<close> throws the same: the subscribers of
  \<open>front\<close> and \<open>w\<close> have been asked to update, in the order of the visit, and none of
  \<open>rest\<close> has, whatever \<open>rest\<close> is. And \<open>notify\<close> throws in no other way.
\<close>

theorem notify_stops_at_first_failure:
  "(visit_order e (subs s d) = front @ w # rest \<and>
    update_each x front (emit (Notified d) s) = (Ret (), s1) \<and>
    update x w (emit (Updated w) s1) = (Some ex, t) \<longrightarrow>
      notify e x d s =
        (Throw ex, t\<lparr>trace := trace s @ Notified d # map Updated (front @ [w])\<rparr>))
   \<and> (notify e x d s = (Throw ex, s') \<longrightarrow>
        (\<exists>front w rest s1 t.
           visit_order e (subs s d) = front @ w # rest \<and>
           update_each x front (emit (Notified d) s) = (Ret (), s1) \<and>
           update x w (emit (Updated w) s1) = (Some ex, t) \<and>
           s' = t\<lparr>trace := trace s @ Notified d # map Updated (front @ [w])\<rparr>))"
proof (intro conjI impI)
  assume h: "visit_order e (subs s d) = front @ w # rest \<and>
    update_each x front (emit (Notified d) s) = (Ret (), s1) \<and>
    update x w (emit (Updated w) s1) = (Some ex, t)"
  then have front: "update_each x front (emit (Notified d) s) = (Ret (), s1)" by simp
  from update_each_trace[OF front] have tr: "trace s1 = trace s @ Notified d # map Updated front"
    by (auto simp: emit_def)
  show "notify e x d s =
        (Throw ex, t\<lparr>trace := trace s @ Notified d # map Updated (front @ [w])\<rparr>)"
    using h tr by (simp add: notify_def update_each_append run_ext_def emit_def)
next
  assume "notify e x d s = (Throw ex, s')"
  then have "update_each x (visit_order e (subs s d)) (emit (Notified d) s) = (Throw ex, s')"
    by (simp add: notify_def)
  from update_each_first_failure[OF this]
  show "\<exists>front w rest s1 t.
           visit_order e (subs s d) = front @ w # rest \<and>
           update_each x front (emit (Notified d) s) = (Ret (), s1) \<and>
           update x w (emit (Updated w) s1) = (Some ex, t) \<and>
           s' = t\<lparr>trace := trace s @ Notified d # map Updated (front @ [w])\<rparr>"
    by (auto simp: emit_def)
qed

theorem notify_stops_at_first_failure_witness:
  "visit_order dev_sync (subs three_subs 0) = [watcher1] @ watcher2 # [watcher3]
   \<and> notify dev_sync second_fails_ext 0 three_subs =
       (Throw (Thrown 7), three_subs\<lparr>trace := [Notified 0, Updated watcher1, Updated watcher2]\<rparr>)
   \<and> Updated watcher3 \<notin> set (trace (snd (notify dev_sync second_fails_ext 0 three_subs)))"
proof -
  have v: "visit_order dev_sync (subs three_subs 0) = [watcher1] @ watcher2 # [watcher3]"
    by (simp add: visit_order_def dev_sync_def three_subs_def two_subs_def
        watcher1_def watcher2_def watcher3_def)
  have p: "update_each second_fails_ext [watcher1] (emit (Notified 0) three_subs) =
      (Ret (), three_subs\<lparr>trace := [Notified 0, Updated watcher1]\<rparr>)"
    by (simp add: second_fails_ext_def quiet_ext_def run_ext_def emit_def three_subs_def
        two_subs_def watcher1_def)
  have u: "update second_fails_ext watcher2
      (emit (Updated watcher2) (three_subs\<lparr>trace := [Notified 0, Updated watcher1]\<rparr>)) =
      (Some (Thrown 7),
       emit (Updated watcher2) (three_subs\<lparr>trace := [Notified 0, Updated watcher1]\<rparr>))"
    by (simp add: second_fails_ext_def quiet_ext_def watcher2_def)
  have t: "trace three_subs = []" by (simp add: three_subs_def two_subs_def)
  from notify_stops_at_first_failure[where e = dev_sync and x = second_fails_ext and d = 0
      and s = three_subs and front = "[watcher1]" and w = watcher2 and rest = "[watcher3]",
      THEN conjunct1, THEN mp, OF conjI[OF v conjI[OF p u]]]
  have n: "notify dev_sync second_fails_ext 0 three_subs =
       (Throw (Thrown 7), three_subs\<lparr>trace := [Notified 0, Updated watcher1, Updated watcher2]\<rparr>)"
    by (simp add: t emit_def)
  show ?thesis using v n by (simp add: watcher2_def watcher3_def watcher1_def)
qed

section \<open>observe returns\<close>

lemma stable_refl: "stable s s"
  by (simp add: stable_def)

lemma keeps_refl: "keeps A s s"
  by (simp add: keeps_def)

lemma stable_trans:
  assumes "stable s s'" and "stable s' s''"
  shows "stable s s''"
proof -
  have same_length: "length (objs s'') = length (objs s)"
    using assms by (simp add: stable_def)
  have each: "cls (objs s'' ! b) = cls (objs s ! b) \<and>
        extensible (objs s'' ! b) = extensible (objs s ! b) \<and>
        (ob (objs s ! b) \<noteq> None \<longrightarrow> ob (objs s'' ! b) = ob (objs s ! b))"
    if "b < length (objs s)" for b
    using assms that unfolding stable_def by (metis option.distinct(1))
  have rest: "length (cells s) \<le> length (cells s'')"
    "\<forall>c < length (cells s). cells s'' ! c = cells s ! c"
    "length (observers s) \<le> length (observers s'')"
    "\<forall>r < length (observers s). observers s'' ! r = observers s ! r"
    "uid s \<le> uid s''" "\<forall>d < uid s. subs s'' d = subs s d"
    "trace s'' = trace s" "shouldObserve s'' = shouldObserve s"
    using assms by (simp_all add: stable_def)
  show ?thesis
    unfolding stable_def using same_length each rest by blast
qed

lemma keeps_trans:
  "stable s s' \<Longrightarrow> keeps A s s' \<Longrightarrow> keeps A s' s'' \<Longrightarrow> keeps A s s''"
  unfolding stable_def keeps_def by (metis)

lemma keeps_mono: "keeps A s s' \<Longrightarrow> A \<subseteq> B \<Longrightarrow> keeps B s s'"
  unfolding keeps_def by blast

lemma unobserved_card:
  "unobserved s = card {b. b < length (objs s) \<and> ob (objs s ! b) = None}"
  by (simp add: unobserved_def length_filter_conv_card)

lemma stable_unobserved: "stable s s' \<Longrightarrow> unobserved s' \<le> unobserved s"
  unfolding unobserved_card
  by (rule card_mono) (auto simp: stable_def)

lemma new_Dep_stable:
  "new_Dep s = (d, s1) \<Longrightarrow> d = uid s \<and> objs s1 = objs s \<and> stable s s1 \<and> keeps A s s1"
  by (auto simp: new_Dep_def stable_def keeps_def)

lemma def_ob_effect:
  assumes "def_ob a r s = (Ret u, s')" and "a < length (objs s)" and "ob (objs s ! a) = None"
  shows "stable s s' \<and> keeps A s s' \<and> unobserved s' < unobserved s \<and>
         objs s' = (objs s)[a := (objs s ! a)\<lparr>ob := Some r\<rparr>]"
proof -
  from assms have s': "s' = set_obj a ((objs s ! a)\<lparr>ob := Some r\<rparr>) s"
    by (auto simp: def_ob_def obj_at_def split: if_splits)
  have st: "stable s s'"
    using assms(2,3) by (auto simp: s' stable_def set_obj_def nth_list_update)
  have kp: "keeps A s s'"
    using assms(2,3) by (auto simp: s' keeps_def set_obj_def nth_list_update)
  have "{b. b < length (objs s') \<and> ob (objs s' ! b) = None}
          \<subset> {b. b < length (objs s) \<and> ob (objs s ! b) = None}"
    using assms(2,3) by (auto simp: s' set_obj_def nth_list_update)
  then have "unobserved s' < unobserved s"
    unfolding unobserved_card by (intro psubset_card_mono) auto
  with st kp show ?thesis by (simp add: s' set_obj_def)
qed

lemma defineProperty_effect:
  assumes "defineProperty a k d s = (Ret u, s')"
  shows "stable s s' \<and> keeps {a} s s'"
proof -
  from assms obtain j where j: "obj_at s a = Some j"
    and s': "s' = set_obj a (j\<lparr>props := upd_prop k d (props j)\<rparr>) s"
    by (auto simp: defineProperty_def split: option.splits if_splits)
  from j have a: "a < length (objs s)" "j = objs s ! a"
    by (auto simp: obj_at_def split: if_splits)
  show ?thesis
    using a by (auto simp: s' stable_def keeps_def set_obj_def nth_list_update)
qed

lemma add_cell_stable:
  "stable s (s\<lparr>cells := cells s @ [cl]\<rparr>) \<and> keeps A s (s\<lparr>cells := cells s @ [cl]\<rparr>)"
  by (auto simp: stable_def keeps_def nth_append)

lemma defineReactive_with_ok:
  assumes H: "obs_ok n obs"
    and n: "unobserved s < n"
    and a: "a < length (objs s)" "ob (objs s ! a) \<noteq> None" "extensible (objs s ! a)"
  shows "\<exists>s'. defineReactive_with obs x a k valarg cs sh s = (Ret (), s') \<and>
           stable s s' \<and> keeps {a} s s'"
proof -
  obtain d s1 where nd: "new_Dep s = (d, s1)" by (cases "new_Dep s")
  from new_Dep_stable[OF nd] have s1: "objs s1 = objs s" "stable s s1" "keeps {a} s s1"
    by auto
  let ?property = "getOwnPropertyDescriptor s1 a k"
  have prop_eq: "?property = map_of (props (objs s ! a)) k"
    using a s1 by (simp add: getOwnPropertyDescriptor_def obj_at_def)
  show ?thesis
  proof (cases "case ?property of Some p \<Rightarrow> \<not> configurable p | None \<Rightarrow> False")
    case True
    then have "defineReactive_with obs x a k valarg cs sh s = (Ret (), s1)"
      by (simp add: defineReactive_with_def nd)
    with s1 show ?thesis by simp
  next
    case False
    define getter where "getter = (case ?property of Some p \<Rightarrow> desc_get p | None \<Rightarrow> None)"
    define setter where "setter = (case ?property of Some p \<Rightarrow> desc_set p | None \<Rightarrow> None)"
    define v where "v = (case valarg of Some v0 \<Rightarrow> v0
       | None \<Rightarrow> if getter = None \<or> setter \<noteq> None then js_get x s1 a k else Undefined)"
    have n1: "unobserved s1 < n"
      using stable_unobserved[OF s1(2)] n by simp
    have "\<exists>childOb s2. observe_unless sh obs v s1 = (Ret childOb, s2) \<and>
            stable s1 s2 \<and> keeps {} s1 s2"
    proof (cases sh)
      case True
      then show ?thesis by (simp add: observe_unless_def stable_refl keeps_refl)
    next
      case False
      then show ?thesis using H n1 by (simp add: observe_unless_def obs_ok_def)
    qed
    then obtain childOb s2 where
      o: "observe_unless sh obs v s1 = (Ret childOb, s2)"
      and st2: "stable s1 s2" and kp2: "keeps {} s1 s2"
      by blast
    define cl where "cl = \<lparr>c_obj = a, c_dep = d, c_val = v, c_childOb = childOb,
        c_shallow = sh, c_customSetter = cs, c_getter = getter, c_setter = setter\<rparr>"
    define s3 where "s3 = s2\<lparr>cells := cells s2 @ [cl]\<rparr>"
    define acc where "acc = Accessor (Some (ReactiveGet (length (cells s2))))
        (Some (ReactiveSet (length (cells s2)))) True True"
    have dr: "defineReactive_with obs x a k valarg cs sh s = defineProperty a k acc s3"
      unfolding defineReactive_with_def nd prod.case Let_def
      unfolding getter_def[symmetric] setter_def[symmetric]
      unfolding v_def[symmetric]
      using False o by (simp add: cl_def s3_def acc_def split del: if_split)
    have a2: "objs s2 ! a = objs s ! a" "length (objs s2) = length (objs s)"
      using kp2 st2 a s1 by (auto simp: keeps_def stable_def)
    have j3: "obj_at s3 a = Some (objs s ! a)"
      using a a2 by (simp add: obj_at_def s3_def)
    have ok: "(case map_of (props (objs s ! a)) k of Some old \<Rightarrow> configurable old
                | None \<Rightarrow> extensible (objs s ! a))"
      using False a(3) by (simp add: prop_eq split: option.splits)
    obtain s4 where dp: "defineProperty a k acc s3 = (Ret (), s4)"
      using ok by (simp add: defineProperty_def j3)
    from defineProperty_effect[OF dp] have st4: "stable s3 s4" "keeps {a} s3 s4" by auto
    have st3: "stable s2 s3" "keeps {a} s2 s3"
      using add_cell_stable[of s2 cl "{a}"] by (auto simp: s3_def)
    have st_s2: "stable s s2" by (rule stable_trans[OF s1(2) st2])
    have kp_s2: "keeps {a} s s2"
      by (rule keeps_trans[OF s1(2) s1(3) keeps_mono[OF kp2]]) simp
    have st_s3: "stable s s3" by (rule stable_trans[OF st_s2 st3(1)])
    have kp_s3: "keeps {a} s s3" by (rule keeps_trans[OF st_s2 kp_s2 st3(2)])
    have "stable s s4" by (rule stable_trans[OF st_s3 st4(1)])
    moreover have "keeps {a} s s4" by (rule keeps_trans[OF st_s3 kp_s3 st4(2)])
    ultimately show ?thesis using dr dp by simp
  qed
qed

lemma walk_with_ok:
  assumes H: "obs_ok n obs"
  shows "unobserved s < n \<Longrightarrow> a < length (objs s) \<Longrightarrow> ob (objs s ! a) \<noteq> None \<Longrightarrow>
         extensible (objs s ! a) \<Longrightarrow>
         \<exists>s'. walk_with obs x a ks s = (Ret (), s') \<and> stable s s' \<and> keeps {a} s s'"
proof (induction ks arbitrary: s)
  case Nil
  then show ?case by (simp add: stable_refl keeps_refl)
next
  case (Cons k ks)
  from defineReactive_with_ok[OF H Cons.prems, of x k None None False]
  obtain s1 where d: "defineReactive_with obs x a k None None False s = (Ret (), s1)"
    and st: "stable s s1" and kp: "keeps {a} s s1"
    by blast
  have p1: "unobserved s1 < n" "a < length (objs s1)" "ob (objs s1 ! a) \<noteq> None"
      "extensible (objs s1 ! a)"
    using stable_unobserved[OF st] Cons.prems st by (auto simp: stable_def)
  from Cons.IH[OF p1] obtain s' where
    w: "walk_with obs x a ks s1 = (Ret (), s')" and st': "stable s1 s'" and kp': "keeps {a} s1 s'"
    by blast
  have "stable s s'" by (rule stable_trans[OF st st'])
  moreover have "keeps {a} s s'" by (rule keeps_trans[OF st kp kp'])
  ultimately show ?case using d w by simp
qed

lemma observeArray_with_ok:
  assumes H: "obs_ok n obs"
  shows "unobserved s < n \<Longrightarrow>
         \<exists>s'. observeArray_with obs vs s = (Ret (), s') \<and> stable s s' \<and> keeps {} s s'"
proof (induction vs arbitrary: s)
  case Nil
  then show ?case by (simp add: stable_refl keeps_refl)
next
  case (Cons v vs)
  from H Cons.prems obtain r s1 where
    o: "obs v s = (Ret r, s1)" and st: "stable s s1" and kp: "keeps {} s s1"
    unfolding obs_ok_def by blast
  have "unobserved s1 < n" using stable_unobserved[OF st] Cons.prems by simp
  from Cons.IH[OF this] obtain s' where
    w: "observeArray_with obs vs s1 = (Ret (), s')" and st': "stable s1 s'"
    and kp': "keeps {} s1 s'"
    by blast
  have "stable s s'" by (rule stable_trans[OF st st'])
  moreover have "keeps {} s s'" by (rule keeps_trans[OF st kp kp'])
  ultimately show ?case using o w by simp
qed

lemma keeps_unobserved: "keeps {a} s s' \<Longrightarrow> ob (objs s ! a) = None \<Longrightarrow> keeps {} s s'"
  unfolding keeps_def by auto

lemma add_observer_stable:
  "stable s (s\<lparr>observers := observers s @ [obr]\<rparr>) \<and>
   keeps A s (s\<lparr>observers := observers s @ [obr]\<rparr>)"
  by (auto simp: stable_def keeps_def nth_append)

lemma set_augmented_stable:
  assumes "a < length (objs s)"
  shows "stable s (set_obj a ((objs s ! a)\<lparr>augmented := True\<rparr>) s) \<and>
         keeps {a} s (set_obj a ((objs s ! a)\<lparr>augmented := True\<rparr>) s)"
  using assms by (auto simp: stable_def keeps_def set_obj_def nth_list_update)

lemma new_Observer_with_ok:
  assumes H: "obs_ok n obs"
    and n: "unobserved s \<le> n"
    and a: "a < length (objs s)" "ob (objs s ! a) = None" "extensible (objs s ! a)"
  shows "\<exists>s'. new_Observer_with obs x a s = (Ret (length (observers s)), s') \<and>
           stable s s' \<and> keeps {} s s' \<and> ob (objs s' ! a) = Some (length (observers s))"
proof -
  obtain d s1 where nd: "new_Dep s = (d, s1)" by (cases "new_Dep s")
  from new_Dep_stable[OF nd] have s1: "objs s1 = objs s" "stable s s1" "keeps {a} s s1"
    by auto
  have obs1: "observers s1 = observers s" using nd by (auto simp: new_Dep_def)
  define r where "r = length (observers s)"
  define s2 where "s2 = s1\<lparr>observers := observers s1 @ [\<lparr>ob_value = a, ob_dep = d, vmCount = 0\<rparr>]\<rparr>"
  have s2: "stable s1 s2" "keeps {a} s1 s2" "objs s2 = objs s"
    using add_observer_stable[of s1 _ "{a}"] s1 by (auto simp: s2_def)
  have st_s2: "stable s s2" by (rule stable_trans[OF s1(2) s2(1)])
  have kp_s2: "keeps {a} s s2" by (rule keeps_trans[OF s1(2) s1(3) s2(2)])
  obtain s3 where df: "def_ob a r s2 = (Ret (), s3)"
    using a s2(3) by (simp add: def_ob_def obj_at_def)
  from def_ob_effect[OF df] a s2(3)
  have s3: "stable s2 s3" "keeps {a} s2 s3" "unobserved s3 < unobserved s2"
    "objs s3 = (objs s)[a := (objs s ! a)\<lparr>ob := Some r\<rparr>]"
    by auto
  have st_s3: "stable s s3" by (rule stable_trans[OF st_s2 s3(1)])
  have kp_s3: "keeps {a} s s3" by (rule keeps_trans[OF st_s2 kp_s2 s3(2)])
  have n3: "unobserved s3 < n"
    using s3(3) stable_unobserved[OF st_s2] n by simp
  define j where "j = (objs s ! a)\<lparr>ob := Some r\<rparr>"
  have j3: "obj_at s3 a = Some j" "objs s3 ! a = j" "a < length (objs s3)"
    using a s3(4) by (auto simp: obj_at_def j_def)
  have jp: "ob j \<noteq> None" "extensible j"
    using a by (auto simp: j_def)
  have "\<exists>s4. (if cls j = ArrayObject
               then observeArray_with obs (elems j) (set_obj a (j\<lparr>augmented := True\<rparr>) s3)
               else walk_with obs x a (object_keys j) s3) = (Ret (), s4) \<and>
          stable s3 s4 \<and> keeps {a} s3 s4"
  proof (cases "cls j = ArrayObject")
    case True
    define s3' where "s3' = set_obj a (j\<lparr>augmented := True\<rparr>) s3"
    have au: "stable s3 s3'" "keeps {a} s3 s3'"
      using set_augmented_stable[OF j3(3)] j3(2) by (auto simp: s3'_def)
    have "unobserved s3' < n" using stable_unobserved[OF au(1)] n3 by simp
    from observeArray_with_ok[OF H this, of "elems j"] obtain s4 where
      w: "observeArray_with obs (elems j) s3' = (Ret (), s4)" "stable s3' s4" "keeps {} s3' s4"
      by blast
    have "stable s3 s4" by (rule stable_trans[OF au(1) w(2)])
    moreover have "keeps {a} s3 s4"
      by (rule keeps_trans[OF au(1) au(2) keeps_mono[OF w(3)]]) simp
    ultimately show ?thesis using True w(1) by (simp add: s3'_def)
  next
    case False
    from walk_with_ok[OF H n3 j3(3), of x "object_keys j"] jp j3(2)
    obtain s4 where "walk_with obs x a (object_keys j) s3 = (Ret (), s4)"
      "stable s3 s4" "keeps {a} s3 s4"
      by auto
    then show ?thesis using False by simp
  qed
  then obtain s4 where
    w: "(if cls j = ArrayObject
         then observeArray_with obs (elems j) (set_obj a (j\<lparr>augmented := True\<rparr>) s3)
         else walk_with obs x a (object_keys j) s3) = (Ret (), s4)"
    and st4: "stable s3 s4" and kp4: "keeps {a} s3 s4"
    by blast
  have res: "new_Observer_with obs x a s = (Ret r, s4)"
    unfolding new_Observer_with_def nd prod.case Let_def obs1
    unfolding r_def[symmetric] s2_def[symmetric, unfolded obs1]
    using df j3(1) w by (simp split del: if_split)
  have st: "stable s s4" by (rule stable_trans[OF st_s3 st4])
  have "keeps {a} s s4" by (rule keeps_trans[OF st_s3 kp_s3 kp4])
  then have kp: "keeps {} s s4" using a(2) by (rule keeps_unobserved)
  have "ob (objs s4 ! a) = Some r"
    using st4 j3 jp by (auto simp: stable_def j_def)
  with res st kp show ?thesis by (simp add: r_def)
qed

lemma observe_n_ok:
  "unobserved s < n \<Longrightarrow>
     \<exists>r s'. observe_n n e x v False s = (Ret r, s') \<and> stable s s' \<and> keeps {} s s' \<and>
       (\<forall>w. r = Some w \<longrightarrow>
          (\<exists>a. v = Ref a \<and> a < length (objs s) \<and> ob (objs s' ! a) = Some w \<and>
               cls (objs s ! a) \<noteq> FunctionObject \<and> cls (objs s ! a) \<noteq> VNodeInstance))"
proof (induction n arbitrary: s v)
  case 0
  then show ?case by simp
next
  case (Suc n)
  let ?obs = "\<lambda>v' s'. observe_n n e x v' False s'"
  have H: "obs_ok n ?obs"
    unfolding obs_ok_def using Suc.IH by blast
  show ?case
  proof (cases "\<not> isObject s v \<or> instanceof_VNode s v")
    case True
    then show ?thesis by (simp add: observe_with_def stable_refl keeps_refl)
  next
    case False
    then obtain a where v: "v = Ref a" and a: "a < length (objs s)"
      and c: "cls (objs s ! a) \<noteq> FunctionObject" "cls (objs s ! a) \<noteq> VNodeInstance"
      by (auto simp: isObject_def instanceof_VNode_def obj_at_def
          split: val.splits option.splits if_splits)
    have oa: "obj_at s a = Some (objs s ! a)" using a by (simp add: obj_at_def)
    show ?thesis
    proof (cases "ob (objs s ! a)")
      case (Some r)
      then have "observe_n (Suc n) e x v False s = (Ret (Some r), s)"
        using False by (simp add: observe_with_def v oa)
      then show ?thesis using Some v a c by (simp add: stable_refl keeps_refl)
    next
      case None
      show ?thesis
      proof (cases "can_observe e x s a (objs s ! a)")
        case True
        then have ex: "extensible (objs s ! a)" by (simp add: can_observe_def)
        from Suc.prems have "unobserved s \<le> n" by simp
        from new_Observer_with_ok[OF H this a None ex, of x]
        obtain s' where nw: "new_Observer_with ?obs x a s = (Ret (length (observers s)), s')"
          and st: "stable s s'" and kp: "keeps {} s s'"
          and o': "ob (objs s' ! a) = Some (length (observers s))"
          by blast
        have "observe_n (Suc n) e x v False s = (Ret (Some (length (observers s))), s')"
          using False True None nw by (simp add: observe_with_def v oa)
        then show ?thesis using st kp o' v a c by simp
      next
        case nope: False
        then have "observe_n (Suc n) e x v False s = (Ret None, s)"
          using False None by (simp add: observe_with_def v oa)
        then show ?thesis by (simp add: stable_refl keeps_refl)
      qed
    qed
  qed
qed

lemma observe_n_root:
  "observe_n n e x v True s =
     (case observe_n n e x v False s of
        (Ret (Some r), s') \<Rightarrow> (Ret (Some r), inc_vmCount r s')
      | other \<Rightarrow> other)"
proof (cases n)
  case 0
  then show ?thesis by simp
next
  case (Suc m)
  show ?thesis
    unfolding Suc observe_n.simps observe_with_def
    by (simp split: val.splits option.splits prod.splits res.splits)
qed

lemma observe_returns:
  "\<exists>r s'. observe e x v False s = (Ret r, s') \<and> stable s s' \<and> keeps {} s s' \<and>
     (\<forall>w. r = Some w \<longrightarrow>
        (\<exists>a. v = Ref a \<and> a < length (objs s) \<and> ob (objs s' ! a) = Some w \<and>
             cls (objs s ! a) \<noteq> FunctionObject \<and> cls (objs s ! a) \<noteq> VNodeInstance))"
  unfolding observe_def by (rule observe_n_ok) simp

lemma inc_vmCount_objs: "objs (inc_vmCount r s) = objs s"
  by (simp add: inc_vmCount_def)

lemma observe_existing:
  assumes "obj_at s a = Some j" and "ob j = Some r"
    and "cls j \<noteq> FunctionObject" and "cls j \<noteq> VNodeInstance"
  shows "observe e x (Ref a) asRootData s =
           (Ret (Some r), if asRootData then inc_vmCount r s else s)"
  using assms
  by (simp add: observe_def observe_with_def isObject_def instanceof_VNode_def)

lemma observe_result:
  assumes "observe e x v asRootData s = (Ret (Some w), s1)"
  shows "\<exists>a j. v = Ref a \<and> obj_at s1 a = Some j \<and> ob j = Some w \<and>
           cls j \<noteq> FunctionObject \<and> cls j \<noteq> VNodeInstance"
proof -
  from observe_returns[of e x v s] obtain r s' where
    o: "observe e x v False s = (Ret r, s')" and st: "stable s s'"
    and link: "\<forall>w. r = Some w \<longrightarrow>
        (\<exists>a. v = Ref a \<and> a < length (objs s) \<and> ob (objs s' ! a) = Some w \<and>
             cls (objs s ! a) \<noteq> FunctionObject \<and> cls (objs s ! a) \<noteq> VNodeInstance)"
    by blast
  have rel: "observe e x v True s =
     (case observe e x v False s of
        (Ret (Some r), s') \<Rightarrow> (Ret (Some r), inc_vmCount r s')
      | other \<Rightarrow> other)"
    unfolding observe_def by (rule observe_n_root)
  have "r = Some w \<and> objs s1 = objs s'"
  proof (cases asRootData)
    case True
    with assms rel o show ?thesis
      by (cases r) (auto simp: inc_vmCount_objs)
  next
    case False
    with assms o show ?thesis by simp
  qed
  with link st show ?thesis
    by (auto simp: obj_at_def stable_def)
qed

text \<open>\<open>observe\<close> always returns: it neither throws nor runs out of depth.\<close>

lemma observe_total: "\<exists>r s'. observe e x v asRootData s = (Ret r, s')"
proof (cases asRootData)
  case False
  then show ?thesis using observe_returns[of e x v s] by auto
next
  case True
  obtain r s' where "observe e x v False s = (Ret r, s')"
    using observe_returns[of e x v s] by blast
  then show ?thesis
    using True observe_n_root[of "Suc (unobserved s)" e x v s]
    by (cases r) (simp_all add: observe_def)
qed

section \<open>The example heaps are what the code produces\<close>

lemmas heap_defs = heap_of_def raw_heap_def observed_heap_def object_prototype_def
  builtin_fn_def record_obj_def reactive_def plain_cell_def dev_sync_def prod_sync_def
  quiet_ext_def sealed_heap_def computed_ext_def accessor_raw_def accessor_heap_def
  shadow_raw_def shadow_heap_def root_heap_def

lemmas observe_defs = observe_def unobserved_def observe_with_def isObject_def
  instanceof_VNode_def obj_at_def js_get_def lookup_def can_observe_def
  new_Observer_with_def new_Dep_def def_ob_def set_obj_def object_keys_def
  defineReactive_with_def observe_unless_def getOwnPropertyDescriptor_def defineProperty_def
  Let_def inc_vmCount_def call_getter_def

lemma observe_raw_heap:
  "observe dev_sync quiet_ext (Ref 2) False raw_heap = (Ret (Some 0), observed_heap)"
  by (simp add: heap_defs observe_defs fun_eq_iff)

lemma observe_raw_heap_as_root:
  "observe dev_sync quiet_ext (Ref 2) True raw_heap = (Ret (Some 0), root_heap)"
  by (simp add: heap_defs observe_defs fun_eq_iff)

lemma observe_shadow_raw:
  "observe dev_sync quiet_ext (Ref 2) False shadow_raw = (Ret (Some 0), shadow_heap)"
  by (simp add: heap_defs observe_defs fun_eq_iff)

lemma defineReactive_accessor_raw:
  "defineReactive dev_sync computed_ext 2 ''full'' None None False accessor_raw =
     (Ret (), accessor_heap)"
  by (simp add: heap_defs observe_defs defineReactive_def fun_eq_iff)

lemmas inherit_defs = inherit_raw_def inherit_heap_def inherit_root_heap_def frozen_heap_def

lemma observe_inherit_raw:
  "observe dev_sync quiet_ext (Ref 3) False inherit_raw = (Ret (Some 0), inherit_heap)"
  by (simp add: heap_defs inherit_defs observe_defs fun_eq_iff)

lemma observe_inherit_raw_as_root:
  "observe dev_sync quiet_ext (Ref 3) True inherit_raw = (Ret (Some 0), inherit_root_heap)"
  by (simp add: heap_defs inherit_defs observe_defs fun_eq_iff)

lemma defineReactive_shadow_heap:
  "defineReactive dev_sync quiet_ext 2 ''toString'' None None False shadow_heap =
     (Ret (), rewrapped_heap)"
  by (simp add: heap_defs rewrapped_heap_def observe_defs defineReactive_def fun_eq_iff
      reactiveGetter.simps)

section \<open>Lemmas on reactiveSetter\<close>

lemma notify_trace:
  "notify e x d s = (r, s') \<Longrightarrow> \<exists>vis. trace s' = trace s @ Notified d # map Updated vis"
  unfolding notify_def by (drule update_each_trace) (auto simp: emit_def)

lemma reactiveSetter_unfold:
  "c < length (cells s) \<Longrightarrow> \<not> same_value newVal (reactiveGetter x s c) \<Longrightarrow>
   run_customSetter e x (c_customSetter (cells s ! c)) s = (Ret (), s1) \<Longrightarrow>
   reactiveSetter e x c newVal s =
     (if c_getter (cells s ! c) \<noteq> None \<and> c_setter (cells s ! c) = None then (Ret (), s1)
      else
        (case (case c_setter (cells s ! c) of
                 None \<Rightarrow> (Ret (), store_val c newVal s1)
               | Some (UserSet f) \<Rightarrow> run_ext (setter_call x f (c_obj (cells s ! c)) newVal) s1
               | Some (ReactiveSet c') \<Rightarrow>
                   if c' < c then reactiveSetter e x c' newVal s1 else (Throw TypeError, s1)) of
           (Throw ex, s2) \<Rightarrow> (Throw ex, s2)
         | (Ret u', s2) \<Rightarrow>
             observe_and_notify e x c (c_shallow (cells s ! c)) (c_dep (cells s ! c)) newVal s2))"
  by (subst reactiveSetter.simps) simp

lemma run_customSetter_trace:
  "run_customSetter e x cs s = (r, s1) \<Longrightarrow> trace s1 = trace s"
  by (auto simp: run_customSetter_def dest: run_ext_trace split: option.splits if_splits)

text \<open>
  A write of another value to a property without original accessors: the value is
  stored, the new value is observed, and the Dep of the property is notified in a
  state where a read gives the new value.
\<close>

lemma reactiveSetter_plain:
  assumes c: "c < length (cells s)"
    and u: "\<not> same_value newVal (reactiveGetter x s c)"
      "run_customSetter e x (c_customSetter (cells s ! c)) s = (Ret (), s1)"
    and b: "c_getter (cells s ! c) = None" "c_setter (cells s ! c) = None"
      "c < length (cells s1)" "cells s1 ! c = cells s ! c"
  shows "\<exists>s3. reactiveSetter e x c newVal s = notify e x (c_dep (cells s ! c)) s3 \<and>
           reactiveGetter x s3 c = newVal \<and> trace s3 = trace s"
proof -
  let ?cl = "cells s ! c"
  define s2 where "s2 = store_val c newVal s1"
  have rs: "reactiveSetter e x c newVal s =
      observe_and_notify e x c (c_shallow ?cl) (c_dep ?cl) newVal s2"
    unfolding reactiveSetter_unfold[OF c u] using b by (simp add: s2_def)
  have tr1: "trace s1 = trace s"
    using u(2) by (rule run_customSetter_trace)
  have c2: "c < length (cells s2)" "cells s2 ! c = ?cl\<lparr>c_val := newVal\<rparr>" "trace s2 = trace s"
    using b tr1 by (simp_all add: s2_def store_val_def)
  obtain childOb s2' where
    o: "observe_unless (c_shallow ?cl) (\<lambda>v' s'. observe e x v' False s') newVal s2 =
          (Ret childOb, s2')"
    and st: "stable s2 s2'"
  proof (cases "c_shallow ?cl")
    case True
    then show ?thesis using that by (simp add: observe_unless_def stable_refl)
  next
    case False
    then show ?thesis using that observe_returns[of e x newVal s2]
      by (auto simp: observe_unless_def)
  qed
  define s3 where "s3 = s2'\<lparr>cells := (cells s2')[c := (cells s2' ! c)\<lparr>c_childOb := childOb\<rparr>]\<rparr>"
  have rs3: "reactiveSetter e x c newVal s = notify e x (c_dep ?cl) s3"
    unfolding rs observe_and_notify_def o by (simp add: s3_def)
  have c3: "c < length (cells s2')" "cells s2' ! c = ?cl\<lparr>c_val := newVal\<rparr>" "trace s2' = trace s"
    using st c2 by (auto simp: stable_def)
  have "reactiveGetter x s3 c = newVal"
    using c3 b by (subst reactiveGetter.simps) (simp add: s3_def)
  moreover have "trace s3 = trace s"
    using c3 by (simp add: s3_def)
  ultimately show ?thesis using rs3 by blast
qed




section \<open>Lemmas on property lookup, defineReactive and set\<close>

lemma obj_atD: "obj_at s a = Some j \<Longrightarrow> a < length (objs s) \<and> j = objs s ! a"
  by (auto simp: obj_at_def split: if_splits)

lemma lookup_own:
  assumes "obj_at s a = Some j" and "map_of (props j) k = Some d"
  shows "lookup s a k = Some (a, d)"
proof -
  from assms(1) have "a < length (objs s)" by (simp add: obj_atD)
  then obtain n where "length (objs s) = Suc n" by (cases "length (objs s)") auto
  then show ?thesis using assms by (simp add: lookup_def)
qed

lemma has_property_own:
  "obj_at s a = Some j \<Longrightarrow> map_of (props j) k \<noteq> None \<Longrightarrow> has_property s a k"
  by (auto simp: has_property_def dest: lookup_own)

lemma get_ob_own:
  assumes "obj_at s a = Some j" and "ob j = Some r"
  shows "get_ob s a = Some r"
proof -
  from assms(1) have "a < length (objs s)" by (simp add: obj_atD)
  then obtain n where "length (objs s) = Suc n" by (cases "length (objs s)") auto
  then show ?thesis using assms by (simp add: get_ob_def)
qed

lemma lookup_plain:
  assumes a: "obj_at s a = Some j" and p: "proto j = Some q"
    and q: "obj_at s q = Some pj" "proto pj = None"
  shows "lookup s a k =
           (case map_of (props j) k of
              Some d \<Rightarrow> Some (a, d)
            | None \<Rightarrow> (case map_of (props pj) k of Some d \<Rightarrow> Some (q, d) | None \<Rightarrow> None))"
proof -
  have "a \<noteq> q" using a p q by auto
  moreover have "a < length (objs s)" "q < length (objs s)"
    using a q by (simp_all add: obj_atD)
  ultimately obtain n where "length (objs s) = Suc (Suc n)"
    by (cases "length (objs s)"; cases "length (objs s) - 1") auto
  then show ?thesis using a p q by (simp add: lookup_def split: option.splits)
qed

lemma map_of_upd_prop: "map_of (upd_prop k d ps) k = Some d"
  by (induction ps) auto

text \<open>
  \<open>defineReactive(obj, key, val)\<close> on an object that carries an Observer and has no own
  property \<open>key\<close>: all that is left to do after the new Dep, \<open>observe(val)\<close> and the
  new closure is the call of \<open>Object.defineProperty\<close>, which returns on an extensible
  object and throws on any other.
\<close>

lemma defineReactive_absent_key:
  assumes a: "obj_at s a = Some j" and o: "ob j \<noteq> None"
    and k: "map_of (props j) k = None"
  shows "\<exists>s3 c childOb.
           defineReactive e x a k (Some v) cs sh s =
             defineProperty a k (Accessor (Some (ReactiveGet c)) (Some (ReactiveSet c)) True True) s3 \<and>
           stable s s3 \<and> obj_at s3 a = Some j \<and>
           length (cells s) \<le> c \<and> c < length (cells s3) \<and>
           cells s3 ! c =
             \<lparr>c_obj = a, c_dep = uid s, c_val = v, c_childOb = childOb, c_shallow = sh,
              c_customSetter = cs, c_getter = None, c_setter = None\<rparr>"
proof -
  from a have al: "a < length (objs s)" and j: "j = objs s ! a" by (simp_all add: obj_atD)
  obtain d s1 where nd: "new_Dep s = (d, s1)" by (cases "new_Dep s")
  from new_Dep_stable[OF nd] have s1: "d = uid s" "objs s1 = objs s" "stable s s1"
    by auto
  have property: "getOwnPropertyDescriptor s1 a k = None"
    using al j k s1 by (simp add: getOwnPropertyDescriptor_def obj_at_def)
  let ?obs = "\<lambda>v' s'. observe e x v' False s'"
  obtain childOb s2 where ob2: "observe_unless sh ?obs v s1 = (Ret childOb, s2)"
    and st2: "stable s1 s2" and kp2: "keeps {} s1 s2"
  proof (cases sh)
    case True
    then show ?thesis using that by (simp add: observe_unless_def stable_refl keeps_refl)
  next
    case False
    then show ?thesis using that observe_returns[of e x v s1]
      by (auto simp: observe_unless_def)
  qed
  define c where "c = length (cells s2)"
  define cl where "cl = \<lparr>c_obj = a, c_dep = d, c_val = v, c_childOb = childOb, c_shallow = sh,
      c_customSetter = cs, c_getter = None, c_setter = None\<rparr>"
  define acc where "acc = Accessor (Some (ReactiveGet c)) (Some (ReactiveSet c)) True True"
  define s3 where "s3 = s2\<lparr>cells := cells s2 @ [cl]\<rparr>"
  have dr: "defineReactive e x a k (Some v) cs sh s = defineProperty a k acc s3"
    unfolding defineReactive_def defineReactive_with_def nd prod.case Let_def property
    using ob2 by (simp add: c_def cl_def acc_def s3_def)
  have a2: "objs s2 ! a = j" "length (objs s2) = length (objs s)"
    using kp2 st2 al o s1 j by (auto simp: keeps_def stable_def)
  have j3: "obj_at s3 a = Some j"
    using al a2 by (simp add: obj_at_def s3_def)
  have st3: "stable s2 s3" using add_cell_stable[of s2 cl "{}"] by (simp add: s3_def)
  have st: "stable s s3"
    by (rule stable_trans[OF stable_trans[OF s1(3) st2] st3])
  have len: "length (cells s) \<le> c"
    using s1(3) st2 by (simp add: c_def stable_def)
  have cc: "c < length (cells s3)" "cells s3 ! c = cl"
    by (simp_all add: s3_def c_def)
  show ?thesis
    using dr st j3 len cc s1(1) unfolding acc_def cl_def
    by (intro exI[of _ s3] exI[of _ c] exI[of _ childOb]) simp
qed

lemma defineReactive_new_key:
  assumes a: "obj_at s a = Some j" and o: "ob j \<noteq> None" and ex: "extensible j"
    and k: "map_of (props j) k = None"
  shows "\<exists>s1 c childOb.
           defineReactive e x a k (Some v) cs sh s = (Ret (), s1) \<and> stable s s1 \<and>
           getOwnPropertyDescriptor s1 a k =
             Some (Accessor (Some (ReactiveGet c)) (Some (ReactiveSet c)) True True) \<and>
           length (cells s) \<le> c \<and> c < length (cells s1) \<and>
           cells s1 ! c =
             \<lparr>c_obj = a, c_dep = uid s, c_val = v, c_childOb = childOb, c_shallow = sh,
              c_customSetter = cs, c_getter = None, c_setter = None\<rparr>"
proof -
  from defineReactive_absent_key[OF a o k, of e x v cs sh] obtain s3 c childOb where
    dr: "defineReactive e x a k (Some v) cs sh s =
       defineProperty a k (Accessor (Some (ReactiveGet c)) (Some (ReactiveSet c)) True True) s3"
    and st: "stable s s3" and j3: "obj_at s3 a = Some j"
    and cc: "length (cells s) \<le> c" "c < length (cells s3)"
      "cells s3 ! c =
        \<lparr>c_obj = a, c_dep = uid s, c_val = v, c_childOb = childOb, c_shallow = sh,
         c_customSetter = cs, c_getter = None, c_setter = None\<rparr>"
    by blast
  let ?acc = "Accessor (Some (ReactiveGet c)) (Some (ReactiveSet c)) True True"
  define s4 where "s4 = set_obj a (j\<lparr>props := upd_prop k ?acc (props j)\<rparr>) s3"
  have dp: "defineProperty a k ?acc s3 = (Ret (), s4)"
    using k ex by (simp add: defineProperty_def j3 s4_def)
  from defineProperty_effect[OF dp] have st4: "stable s3 s4" by simp
  have al: "a < length (objs s3)" using j3 by (simp add: obj_atD)
  have g: "getOwnPropertyDescriptor s4 a k = Some ?acc"
    using al by (simp add: getOwnPropertyDescriptor_def obj_at_def s4_def set_obj_def
        map_of_upd_prop)
  have c4: "c < length (cells s4)" "cells s4 ! c = cells s3 ! c"
    using cc by (simp_all add: s4_def set_obj_def)
  show ?thesis
    using dr dp stable_trans[OF st st4] g cc c4
    by (intro exI[of _ s4] exI[of _ c] exI[of _ childOb]) simp
qed

lemma defineReactive_not_extensible:
  assumes a: "obj_at s a = Some j" and o: "ob j \<noteq> None" and ex: "\<not> extensible j"
    and k: "map_of (props j) k = None"
  shows "\<exists>s3. defineReactive e x a k (Some v) cs sh s = (Throw TypeError, s3) \<and>
           stable s s3 \<and> obj_at s3 a = Some j"
proof -
  from defineReactive_absent_key[OF a o k, of e x v cs sh] obtain s3 c where
    dr: "defineReactive e x a k (Some v) cs sh s =
       defineProperty a k (Accessor (Some (ReactiveGet c)) (Some (ReactiveSet c)) True True) s3"
    and st: "stable s s3" and j3: "obj_at s3 a = Some j"
    by blast
  have "defineProperty a k (Accessor (Some (ReactiveGet c)) (Some (ReactiveSet c)) True True) s3 =
      (Throw TypeError, s3)"
    using k ex by (simp add: defineProperty_def j3)
  with dr st j3 show ?thesis by auto
qed

lemma set_js_record:
  assumes "obj_at s a = Some j" and "cls j \<noteq> ArrayObject"
  shows "set_js e x (Ref a) k v s =
     (if has_property s a k \<and> \<not> has_property s (objectPrototype e) k
      then assign_and_return e x a k v s
      else if is_root x s a
      then (Ret v, if \<not> production e then emit (Warned root_warning) s else s)
      else
        (case target_ob s a of
           None \<Rightarrow> assign_and_return e x a k v s
         | Some obr \<Rightarrow> define_and_notify e x obr k v s))"
  using assms by (simp add: set_js_def)

lemmas set_defs = set_js_def assign_and_return_def define_and_notify_def defineReactive_def
  js_assign_def call_setter_def write_own_def create_data_def target_ob_def get_ob_def
  is_root_def observer_at_def has_property_def notify_def visit_order_def emit_def run_ext_def
  observe_and_notify_def store_val_def run_customSetter_def same_value_def
  reactiveGetter.simps reactiveSetter.simps

lemma set_js_guard_fails:
  assumes j: "obj_at s a = Some j" and rec: "cls j \<noteq> ArrayObject"
    and guard: "has_property s a k \<longrightarrow> has_property s (objectPrototype e) k"
  shows "set_js e x (Ref a) k v s =
     (if is_root x s a
      then (Ret v, if \<not> production e then emit (Warned root_warning) s else s)
      else
        (case target_ob s a of
           None \<Rightarrow> assign_and_return e x a k v s
         | Some obr \<Rightarrow> define_and_notify e x obr k v s))"
  using guard by (auto simp: set_js_record[OF j rec])

lemma set_js_defines:
  assumes j: "obj_at s a = Some j" and rec: "cls j \<noteq> ArrayObject"
    and r: "ob j = Some r" and obr: "observer_at s r = Some obr" and wraps: "ob_value obr = a"
    and own: "getOwnPropertyDescriptor s a k = None"
    and guard: "has_property s a k \<longrightarrow> has_property s (objectPrototype e) k"
    and novue: "\<not> truthy (js_get x s a ''_isVue'')"
    and nr: "vmCount obr = 0" and ex: "extensible j"
  shows "\<exists>s1 c childOb.
           defineReactive e x a k (Some v) None False s = (Ret (), s1) \<and>
           getOwnPropertyDescriptor s1 a k =
             Some (Accessor (Some (ReactiveGet c)) (Some (ReactiveSet c)) True True) \<and>
           length (cells s) \<le> c \<and> c < length (cells s1) \<and>
           cells s1 ! c =
             \<lparr>c_obj = a, c_dep = uid s, c_val = v, c_childOb = childOb, c_shallow = False,
              c_customSetter = None, c_getter = None, c_setter = None\<rparr> \<and>
           trace s1 = trace s \<and>
           set_js e x (Ref a) k v s =
             (case notify e x (ob_dep obr) s1 of
                (Throw ex, s2) \<Rightarrow> (Throw ex, s2)
              | (Ret u, s2) \<Rightarrow> (Ret v, s2)) \<and>
           (\<exists>vis. trace (snd (set_js e x (Ref a) k v s)) =
              trace s @ Notified (ob_dep obr) # map Updated vis)"
proof -
  have tob: "target_ob s a = Some obr"
    using get_ob_own[OF j r] obr by (simp add: target_ob_def)
  have notroot: "\<not> is_root x s a" using tob novue nr by (simp add: is_root_def)
  have own': "map_of (props j) k = None"
    using own j by (simp add: getOwnPropertyDescriptor_def)
  have set_eq: "set_js e x (Ref a) k v s = define_and_notify e x obr k v s"
    using notroot tob by (simp add: set_js_guard_fails[OF j rec guard])
  from defineReactive_new_key[OF j _ ex own', of e x v None False] r
  obtain s1 c childOb where
    dr: "defineReactive e x a k (Some v) None False s = (Ret (), s1)"
    and st: "stable s s1"
    and g: "getOwnPropertyDescriptor s1 a k =
       Some (Accessor (Some (ReactiveGet c)) (Some (ReactiveSet c)) True True)"
    and c: "length (cells s) \<le> c" "c < length (cells s1)"
    and cl: "cells s1 ! c =
       \<lparr>c_obj = a, c_dep = uid s, c_val = v, c_childOb = childOb, c_shallow = False,
        c_customSetter = None, c_getter = None, c_setter = None\<rparr>"
    by auto
  have tr1: "trace s1 = trace s" using st by (simp add: stable_def)
  have set1: "set_js e x (Ref a) k v s =
      (case notify e x (ob_dep obr) s1 of
         (Throw ex, s2) \<Rightarrow> (Throw ex, s2)
       | (Ret u, s2) \<Rightarrow> (Ret v, s2))"
    unfolding set_eq define_and_notify_def wraps dr by simp
  obtain rn sn where n: "notify e x (ob_dep obr) s1 = (rn, sn)"
    by (cases "notify e x (ob_dep obr) s1")
  from notify_trace[OF n] obtain vis where
    vis: "trace sn = trace s1 @ Notified (ob_dep obr) # map Updated vis" by blast
  have tr_set: "\<exists>vis. trace (snd (set_js e x (Ref a) k v s)) =
      trace s @ Notified (ob_dep obr) # map Updated vis"
    unfolding set1 n using vis tr1 by (cases rn) auto
  show ?thesis
    using dr g c cl tr1 set1 tr_set
    by (intro exI[of _ s1] exI[of _ c] exI[of _ childOb]) simp
qed

lemma set_js_not_extensible:
  assumes j: "obj_at s a = Some j" and rec: "cls j \<noteq> ArrayObject"
    and r: "ob j = Some r" and obr: "observer_at s r = Some obr" and wraps: "ob_value obr = a"
    and own: "getOwnPropertyDescriptor s a k = None"
    and guard: "has_property s a k \<longrightarrow> has_property s (objectPrototype e) k"
    and novue: "\<not> truthy (js_get x s a ''_isVue'')"
    and nr: "vmCount obr = 0" and ex: "\<not> extensible j"
  shows "fst (set_js e x (Ref a) k v s) = Throw TypeError \<and>
         getOwnPropertyDescriptor (snd (set_js e x (Ref a) k v s)) a k = None \<and>
         trace (snd (set_js e x (Ref a) k v s)) = trace s"
proof -
  have tob: "target_ob s a = Some obr"
    using get_ob_own[OF j r] obr by (simp add: target_ob_def)
  have notroot: "\<not> is_root x s a" using tob novue nr by (simp add: is_root_def)
  have own': "map_of (props j) k = None"
    using own j by (simp add: getOwnPropertyDescriptor_def)
  have set_eq: "set_js e x (Ref a) k v s = define_and_notify e x obr k v s"
    using notroot tob by (simp add: set_js_guard_fails[OF j rec guard])
  from defineReactive_not_extensible[OF j _ ex own', of e x v None False] r
  obtain s3 where dr: "defineReactive e x a k (Some v) None False s = (Throw TypeError, s3)"
    and st: "stable s s3" and j3: "obj_at s3 a = Some j"
    by auto
  have "set_js e x (Ref a) k v s = (Throw TypeError, s3)"
    unfolding set_eq define_and_notify_def wraps dr by simp
  then show ?thesis
    using st j3 own' by (simp add: stable_def getOwnPropertyDescriptor_def)
qed

lemma reactive_write_notifies:
  assumes g: "getOwnPropertyDescriptor t a k =
       Some (Accessor (Some (ReactiveGet c)) (Some (ReactiveSet c)) True True)"
    and ct: "c < length (cells t)"
    and clt: "cells t ! c =
       \<lparr>c_obj = a, c_dep = d, c_val = v, c_childOb = childOb, c_shallow = False,
        c_customSetter = None, c_getter = None, c_setter = None\<rparr>"
    and diff: "\<not> same_value v2 v"
  shows "\<exists>vis. trace (snd (js_assign e x a k v2 t)) = trace t @ Notified d # map Updated vis"
proof -
  from g obtain j1 where j1: "obj_at t a = Some j1"
    and p1: "map_of (props j1) k =
      Some (Accessor (Some (ReactiveGet c)) (Some (ReactiveSet c)) True True)"
    by (auto simp: getOwnPropertyDescriptor_def split: option.splits)
  have asg: "js_assign e x a k v2 t = reactiveSetter e x c v2 t"
    by (simp add: js_assign_def lookup_own[OF j1 p1] call_setter_def)
  have cur: "reactiveGetter x t c = v"
    using ct clt by (subst reactiveGetter.simps) simp
  have cs: "run_customSetter e x (c_customSetter (cells t ! c)) t = (Ret (), t)"
    by (simp add: clt run_customSetter_def)
  from reactiveSetter_plain[OF ct _ cs, of v2] diff cur clt ct
  obtain s3 where s3: "reactiveSetter e x c v2 t = notify e x (c_dep (cells t ! c)) s3"
    "trace s3 = trace t"
    by auto
  obtain r4 s4 where n4: "notify e x (c_dep (cells t ! c)) s3 = (r4, s4)"
    by (cases "notify e x (c_dep (cells t ! c)) s3")
  from notify_trace[OF n4] show ?thesis
    unfolding asg s3(1) n4 by (simp add: s3(2) clt)
qed

lemma lookup_inherited:
  assumes j: "obj_at s a = Some j" and lk: "lookup s a k = Some (h, d)" and h: "h \<noteq> a"
  shows "map_of (props j) k = None"
proof (cases "map_of (props j) k")
  case None
  then show ?thesis .
next
  case (Some d')
  from lookup_own[OF j Some] lk h show ?thesis by simp
qed

lemma set_js_assigns:
  assumes j: "obj_at s a = Some j" and rec: "cls j \<noteq> ArrayObject"
    and lk: "lookup s a k = Some (h, d)"
    and nop: "\<not> has_property s (objectPrototype e) k"
  shows "set_js e x (Ref a) k v s =
     (case js_assign e x a k v s of
        (Throw ex, s1) \<Rightarrow> (Throw ex, s1)
      | (Ret u, s1) \<Rightarrow> (Ret v, s1))"
  using lk nop by (simp add: set_js_record[OF j rec] has_property_def assign_and_return_def)

lemma set_js_own_data:
  assumes j: "obj_at s a = Some j" and rec: "cls j \<noteq> ArrayObject"
    and lk: "lookup s a k = Some (a, Data v0 True en cf)"
    and nop: "\<not> has_property s (objectPrototype e) k"
  shows "fst (set_js e x (Ref a) k v s) = Ret v \<and>
     getOwnPropertyDescriptor (snd (set_js e x (Ref a) k v s)) a k = Some (Data v True en cf) \<and>
     js_get x (snd (set_js e x (Ref a) k v s)) a k = v \<and>
     cells (snd (set_js e x (Ref a) k v s)) = cells s \<and>
     uid (snd (set_js e x (Ref a) k v s)) = uid s \<and>
     trace (snd (set_js e x (Ref a) k v s)) = trace s"
proof -
  from j have al: "a < length (objs s)" by (simp add: obj_atD)
  have "set_js e x (Ref a) k v s =
      (Ret v, set_obj a (j\<lparr>props := upd_prop k (Data v True en cf) (props j)\<rparr>) s)"
    unfolding set_js_assigns[OF j rec lk nop] by (simp add: js_assign_def lk write_own_def j)
  moreover have "lookup (set_obj a (j\<lparr>props := upd_prop k (Data v True en cf) (props j)\<rparr>) s)
      a k = Some (a, Data v True en cf)"
    using al by (intro lookup_own[where j = "j\<lparr>props := upd_prop k (Data v True en cf) (props j)\<rparr>"])
      (simp_all add: obj_at_def set_obj_def map_of_upd_prop)
  ultimately show ?thesis
    using al by (simp add: getOwnPropertyDescriptor_def obj_at_def set_obj_def map_of_upd_prop
        js_get_def)
qed

lemma set_js_inherited_data:
  assumes j: "obj_at s a = Some j" and rec: "cls j \<noteq> ArrayObject"
    and lk: "lookup s a k = Some (h, Data v0 True en cf)" and h: "h \<noteq> a"
    and ex: "extensible j"
    and nop: "\<not> has_property s (objectPrototype e) k"
  shows "fst (set_js e x (Ref a) k v s) = Ret v \<and>
     getOwnPropertyDescriptor (snd (set_js e x (Ref a) k v s)) a k =
       Some (Data v True True True) \<and>
     js_get x (snd (set_js e x (Ref a) k v s)) a k = v \<and>
     cells (snd (set_js e x (Ref a) k v s)) = cells s \<and>
     uid (snd (set_js e x (Ref a) k v s)) = uid s \<and>
     trace (snd (set_js e x (Ref a) k v s)) = trace s"
proof -
  from j have al: "a < length (objs s)" by (simp add: obj_atD)
  have own: "map_of (props j) k = None" by (rule lookup_inherited[OF j lk h])
  have "set_js e x (Ref a) k v s =
      (Ret v, set_obj a (j\<lparr>props := props j @ [(k, Data v True True True)]\<rparr>) s)"
    unfolding set_js_assigns[OF j rec lk nop]
    using h ex by (simp add: js_assign_def lk create_data_def j)
  moreover have "lookup (set_obj a (j\<lparr>props := props j @ [(k, Data v True True True)]\<rparr>) s)
      a k = Some (a, Data v True True True)"
    using al own
    by (intro lookup_own[where j = "j\<lparr>props := props j @ [(k, Data v True True True)]\<rparr>"])
      (simp_all add: obj_at_def set_obj_def map_add_def)
  ultimately show ?thesis
    using al own by (simp add: getOwnPropertyDescriptor_def obj_at_def set_obj_def map_add_def
        js_get_def)
qed

text \<open>
  An own key that is also a key of \<open>Object.prototype\<close> fails the test of \<open>set\<close> although
  it exists. On the observed record \<open>{toString: 1}\<close>, \<open>set(target, 'toString', 2)\<close>
  defines the property anew over the accessors it had and notifies the Dep of the
  Observer: \<open>set\<close> returns 2, and the property still reads 1.
\<close>

lemma set_shadowed_own_key:
  "map_of (props (objs shadow_heap ! 2)) ''toString'' \<noteq> None
   \<and> has_property shadow_heap (objectPrototype dev_sync) ''toString''
   \<and> fst (set_js dev_sync quiet_ext (Ref 2) ''toString'' (Num 2) shadow_heap) = Ret (Num 2)
   \<and> js_get quiet_ext (snd (set_js dev_sync quiet_ext (Ref 2) ''toString'' (Num 2) shadow_heap))
        2 ''toString'' = Num 1
   \<and> trace (snd (set_js dev_sync quiet_ext (Ref 2) ''toString'' (Num 2) shadow_heap)) =
        [Notified 0]"
  by (simp add: heap_defs observe_defs set_defs)


section \<open>Properties of the observer\<close>




text \<open>
  C8. \<open>observe\<close> is idempotent. For a value that carries an Observer (an object that
  is neither a function nor a VNode, the only ones \<open>observe\<close> ever wraps), \<open>observe\<close>
  returns that Observer and builds nothing: the state is the same, but for
  \<open>vmCount\<close> when \<open>asRootData\<close> is set. And when \<open>observe\<close> has returned an Observer
  for a value, any later \<open>observe\<close> of the value in the state it left returns the same
  Observer, adds no Observer and leaves every object as it is.
\<close>

theorem observe_idempotent:
  "(obj_at s a = Some j \<and> ob j = Some r \<and> cls j \<noteq> FunctionObject \<and> cls j \<noteq> VNodeInstance \<longrightarrow>
      observe e x (Ref a) asRootData s =
        (Ret (Some r), if asRootData then inc_vmCount r s else s))
   \<and> (observe e x v asRootData s = (Ret (Some w), s1) \<longrightarrow>
      observe e x v again s1 = (Ret (Some w), if again then inc_vmCount w s1 else s1) \<and>
      length (observers (snd (observe e x v again s1))) = length (observers s1) \<and>
      objs (snd (observe e x v again s1)) = objs s1)"
proof (intro conjI impI)
  assume "obj_at s a = Some j \<and> ob j = Some r \<and> cls j \<noteq> FunctionObject \<and> cls j \<noteq> VNodeInstance"
  then show "observe e x (Ref a) asRootData s =
      (Ret (Some r), if asRootData then inc_vmCount r s else s)"
    by (simp add: observe_existing)
next
  assume first: "observe e x v asRootData s = (Ret (Some w), s1)"
  from observe_result[OF first] obtain a j where
    "v = Ref a" "obj_at s1 a = Some j" "ob j = Some w"
    "cls j \<noteq> FunctionObject" "cls j \<noteq> VNodeInstance"
    by blast
  then show second:
    "observe e x v again s1 = (Ret (Some w), if again then inc_vmCount w s1 else s1)"
    by (simp add: observe_existing)
  show "length (observers (snd (observe e x v again s1))) = length (observers s1)"
    unfolding second by (simp add: inc_vmCount_def)
  show "objs (snd (observe e x v again s1)) = objs s1"
    unfolding second by (simp add: inc_vmCount_def)
qed

theorem observe_idempotent_witness:
  "observe dev_sync quiet_ext (Ref 2) False raw_heap = (Ret (Some 0), observed_heap)
   \<and> observe dev_sync quiet_ext (Ref 2) True observed_heap =
       (Ret (Some 0), inc_vmCount 0 observed_heap)
   \<and> length (observers (snd (observe dev_sync quiet_ext (Ref 2) True observed_heap))) = 2"
proof -
  note first = observe_raw_heap
  from observe_idempotent
    [where e = dev_sync and x = quiet_ext and v = "Ref 2" and asRootData = False
       and s = raw_heap and w = 0 and ?s1.0 = observed_heap and again = True,
     THEN conjunct2, THEN mp, OF first]
  have second: "observe dev_sync quiet_ext (Ref 2) True observed_heap =
      (Ret (Some 0), inc_vmCount 0 observed_heap)"
    and len: "length (observers (snd (observe dev_sync quiet_ext (Ref 2) True observed_heap))) =
      length (observers observed_heap)"
    by (simp_all add: inc_vmCount_def)
  have "length (observers observed_heap) = 2" by (simp add: heap_defs)
  with first second len show ?thesis by simp
qed

text \<open>
  C10. When \<open>obj\<close> has an own property \<open>key\<close> that is not configurable,
  \<open>defineReactive(obj, key, ...)\<close> returns at once: the property is as it was, no
  closure (no getter and setter) is created, no object, Observer or subscriber list has
  changed and nothing is reported. The Dep that was created before the test is left
  unused; it has taken one id.
\<close>

theorem defineReactive_nonconfigurable_noop:
  assumes "getOwnPropertyDescriptor s a k = Some p" and "\<not> configurable p"
  shows "\<exists>s'. defineReactive e x a k valarg customSetter shallow s = (Ret (), s') \<and>
           objs s' = objs s \<and> cells s' = cells s \<and> observers s' = observers s \<and>
           trace s' = trace s \<and> shouldObserve s' = shouldObserve s \<and>
           getOwnPropertyDescriptor s' a k = Some p \<and>
           uid s' = Suc (uid s) \<and> subs s' = (subs s)(uid s := [])"
proof -
  obtain d s1 where nd: "new_Dep s = (d, s1)" by (cases "new_Dep s")
  then have s1: "s1 = s\<lparr>uid := Suc (uid s), subs := (subs s)(uid s := [])\<rparr>"
    by (auto simp: new_Dep_def)
  have property: "getOwnPropertyDescriptor s1 a k = Some p"
    using assms(1) by (simp add: s1 getOwnPropertyDescriptor_def obj_at_def split: if_splits)
  have "defineReactive e x a k valarg customSetter shallow s = (Ret (), s1)"
    unfolding defineReactive_def defineReactive_with_def nd prod.case Let_def property
    using assms(2) by simp
  then show ?thesis using property by (simp add: s1)
qed

theorem defineReactive_nonconfigurable_noop_witness:
  "fst (defineReactive dev_sync quiet_ext 2 ''id'' None None False sealed_heap) = Ret ()
   \<and> objs (snd (defineReactive dev_sync quiet_ext 2 ''id'' None None False sealed_heap)) =
       objs sealed_heap
   \<and> cells (snd (defineReactive dev_sync quiet_ext 2 ''id'' None None False sealed_heap)) = []"
proof -
  have p: "getOwnPropertyDescriptor sealed_heap 2 ''id'' = Some (Data (Num 7) False True False)"
    by (simp add: heap_defs getOwnPropertyDescriptor_def obj_at_def)
  have "cells sealed_heap = []" by (simp add: heap_defs)
  with defineReactive_nonconfigurable_noop[OF p, of dev_sync quiet_ext None None False]
  show ?thesis by auto
qed

text \<open>
  C6, as the specification states it, fails: the test of \<open>set\<close> that comes first is
  \<open>key in target && !(key in Object.prototype)\<close>, and it holds of an inherited key.
  The observed record at address 3 lacks the key \<open>k\<close> and inherits it from its
  prototype. \<open>set(target, 'k', 9)\<close> assigns: \<open>k\<close> becomes a plain data property, nobody
  is notified, and a later write to \<open>k\<close> notifies nobody either. When the same record
  is root data, the key is created all the same, and no warning is reported. And on
  the observed record at address 2, made non-extensible after it was observed,
  \<open>set(target, 'n', 5)\<close> throws a TypeError and defines nothing.
\<close>

theorem set_inherited_key_counterexample:
  "getOwnPropertyDescriptor inherit_heap 3 ''k'' = None
   \<and> ob (objs inherit_heap ! 3) = Some 0 \<and> vmCount (observers inherit_heap ! 0) = 0
   \<and> fst (set_js dev_sync quiet_ext (Ref 3) ''k'' (Num 9) inherit_heap) = Ret (Num 9)
   \<and> getOwnPropertyDescriptor (snd (set_js dev_sync quiet_ext (Ref 3) ''k'' (Num 9) inherit_heap))
        3 ''k'' = Some (Data (Num 9) True True True)
   \<and> trace (snd (set_js dev_sync quiet_ext (Ref 3) ''k'' (Num 9) inherit_heap)) = []
   \<and> trace (snd (js_assign dev_sync quiet_ext 3 ''k'' (Num 7)
        (snd (set_js dev_sync quiet_ext (Ref 3) ''k'' (Num 9) inherit_heap)))) = []
   \<and> vmCount (observers inherit_root_heap ! 0) = 1
   \<and> getOwnPropertyDescriptor
        (snd (set_js dev_sync quiet_ext (Ref 3) ''k'' (Num 9) inherit_root_heap)) 3 ''k'' =
        Some (Data (Num 9) True True True)
   \<and> trace (snd (set_js dev_sync quiet_ext (Ref 3) ''k'' (Num 9) inherit_root_heap)) = []
   \<and> ob (objs frozen_heap ! 2) = Some 0 \<and> \<not> extensible (objs frozen_heap ! 2)
   \<and> \<not> has_property frozen_heap 2 ''n''
   \<and> fst (set_js dev_sync quiet_ext (Ref 2) ''n'' (Num 5) frozen_heap) = Throw TypeError
   \<and> getOwnPropertyDescriptor (snd (set_js dev_sync quiet_ext (Ref 2) ''n'' (Num 5) frozen_heap))
        2 ''n'' = None"
  by (simp add: heap_defs inherit_defs observe_defs set_defs lookup_def)

text \<open>
  C6, amended. Let the record at \<open>a\<close> carry the Observer \<open>obr\<close> that wraps it and be no
  Vue instance; let \<open>k\<close> be no own property of the record and, where the record
  inherits \<open>k\<close>, a property of \<open>Object.prototype\<close> (the test
  \<open>key in target && !(key in Object.prototype)\<close> fails). When the record is no root
  data (\<open>vmCount = 0\<close>) and extensible, \<open>set(target, k, v)\<close> defines \<open>k\<close> through
  \<open>defineReactive\<close>: \<open>k\<close> is then an accessor property over a new closure that holds
  \<open>v\<close> and a new Dep; \<open>set\<close> goes on to notify the Dep of the Observer at once; and in
  every later state \<open>t\<close> in which the property and its closure are as
  \<open>defineReactive\<close> left them, a write of another value to \<open>k\<close> notifies the new Dep.
  When the record is no root data and not extensible, \<open>set\<close> throws a TypeError,
  defines nothing and notifies nobody. When the record is root data (\<open>vmCount > 0\<close>),
  \<open>set\<close> returns \<open>v\<close> and changes nothing; a build that is not a production build
  reports the warning.
\<close>

theorem set_new_key_on_observed_record:
  assumes j: "obj_at s a = Some j" and rec: "cls j \<noteq> ArrayObject"
    and r: "ob j = Some r" and obr: "observer_at s r = Some obr" and wraps: "ob_value obr = a"
    and own: "getOwnPropertyDescriptor s a k = None"
    and guard: "has_property s a k \<longrightarrow> has_property s (objectPrototype e) k"
    and key: "k \<noteq> ''__ob__''"
    and novue: "\<not> truthy (js_get x s a ''_isVue'')"
  shows "(vmCount obr = 0 \<and> extensible j \<longrightarrow>
           (\<exists>s1 c childOb.
              defineReactive e x a k (Some v) None False s = (Ret (), s1) \<and>
              getOwnPropertyDescriptor s1 a k =
                Some (Accessor (Some (ReactiveGet c)) (Some (ReactiveSet c)) True True) \<and>
              length (cells s) \<le> c \<and> c < length (cells s1) \<and>
              cells s1 ! c =
                \<lparr>c_obj = a, c_dep = uid s, c_val = v, c_childOb = childOb, c_shallow = False,
                 c_customSetter = None, c_getter = None, c_setter = None\<rparr> \<and>
              trace s1 = trace s \<and>
              set_js e x (Ref a) k v s =
                (case notify e x (ob_dep obr) s1 of
                   (Throw ex, s2) \<Rightarrow> (Throw ex, s2)
                 | (Ret u, s2) \<Rightarrow> (Ret v, s2)) \<and>
              (\<exists>vis. trace (snd (set_js e x (Ref a) k v s)) =
                 trace s @ Notified (ob_dep obr) # map Updated vis) \<and>
              (\<forall>t v2.
                 getOwnPropertyDescriptor t a k = getOwnPropertyDescriptor s1 a k \<and>
                 c < length (cells t) \<and> cells t ! c = cells s1 ! c \<and>
                 \<not> same_value v2 v \<longrightarrow>
                 (\<exists>vis. trace (snd (js_assign e x a k v2 t)) =
                    trace t @ Notified (uid s) # map Updated vis))))
       \<and> (vmCount obr = 0 \<and> \<not> extensible j \<longrightarrow>
           fst (set_js e x (Ref a) k v s) = Throw TypeError \<and>
           getOwnPropertyDescriptor (snd (set_js e x (Ref a) k v s)) a k = None \<and>
           trace (snd (set_js e x (Ref a) k v s)) = trace s)
       \<and> (vmCount obr \<noteq> 0 \<longrightarrow>
           set_js e x (Ref a) k v s =
             (Ret v, if production e then s else emit (Warned root_warning) s))"
proof (intro conjI impI)
  have tob: "target_ob s a = Some obr"
    using get_ob_own[OF j r] obr by (simp add: target_ob_def)
  {
    assume "vmCount obr \<noteq> 0"
    then have "is_root x s a" using tob by (simp add: is_root_def)
    then show "set_js e x (Ref a) k v s =
        (Ret v, if production e then s else emit (Warned root_warning) s)"
      by (simp add: set_js_guard_fails[OF j rec guard])
  }
  {
    assume "vmCount obr = 0 \<and> \<not> extensible j"
    then have h: "vmCount obr = 0" "\<not> extensible j" by simp_all
    from set_js_not_extensible[OF j rec r obr wraps own guard novue h]
    show "fst (set_js e x (Ref a) k v s) = Throw TypeError"
      and "getOwnPropertyDescriptor (snd (set_js e x (Ref a) k v s)) a k = None"
      and "trace (snd (set_js e x (Ref a) k v s)) = trace s"
      by simp_all
  }
  assume "vmCount obr = 0 \<and> extensible j"
  then have h: "vmCount obr = 0" "extensible j" by simp_all
  from set_js_defines[OF j rec r obr wraps own guard novue h, of v]
  obtain s1 c childOb where
    dr: "defineReactive e x a k (Some v) None False s = (Ret (), s1)"
    and g: "getOwnPropertyDescriptor s1 a k =
       Some (Accessor (Some (ReactiveGet c)) (Some (ReactiveSet c)) True True)"
    and c: "length (cells s) \<le> c" "c < length (cells s1)"
    and cl: "cells s1 ! c =
       \<lparr>c_obj = a, c_dep = uid s, c_val = v, c_childOb = childOb, c_shallow = False,
        c_customSetter = None, c_getter = None, c_setter = None\<rparr>"
    and tr1: "trace s1 = trace s"
    and set1: "set_js e x (Ref a) k v s =
      (case notify e x (ob_dep obr) s1 of
         (Throw ex, s2) \<Rightarrow> (Throw ex, s2)
       | (Ret u, s2) \<Rightarrow> (Ret v, s2))"
    and tr_set: "\<exists>vis. trace (snd (set_js e x (Ref a) k v s)) =
      trace s @ Notified (ob_dep obr) # map Updated vis"
    by blast
  have later: "\<forall>t v2.
      getOwnPropertyDescriptor t a k = getOwnPropertyDescriptor s1 a k \<and>
      c < length (cells t) \<and> cells t ! c = cells s1 ! c \<and> \<not> same_value v2 v \<longrightarrow>
      (\<exists>vis. trace (snd (js_assign e x a k v2 t)) =
         trace t @ Notified (uid s) # map Updated vis)"
    using reactive_write_notifies[where a = a and k = k and c = c and v = v and d = "uid s"
        and childOb = childOb and e = e and x = x] g cl
    by auto
  show "\<exists>s1 c childOb.
              defineReactive e x a k (Some v) None False s = (Ret (), s1) \<and>
              getOwnPropertyDescriptor s1 a k =
                Some (Accessor (Some (ReactiveGet c)) (Some (ReactiveSet c)) True True) \<and>
              length (cells s) \<le> c \<and> c < length (cells s1) \<and>
              cells s1 ! c =
                \<lparr>c_obj = a, c_dep = uid s, c_val = v, c_childOb = childOb, c_shallow = False,
                 c_customSetter = None, c_getter = None, c_setter = None\<rparr> \<and>
              trace s1 = trace s \<and>
              set_js e x (Ref a) k v s =
                (case notify e x (ob_dep obr) s1 of
                   (Throw ex, s2) \<Rightarrow> (Throw ex, s2)
                 | (Ret u, s2) \<Rightarrow> (Ret v, s2)) \<and>
              (\<exists>vis. trace (snd (set_js e x (Ref a) k v s)) =
                 trace s @ Notified (ob_dep obr) # map Updated vis) \<and>
              (\<forall>t v2.
                 getOwnPropertyDescriptor t a k = getOwnPropertyDescriptor s1 a k \<and>
                 c < length (cells t) \<and> cells t ! c = cells s1 ! c \<and>
                 \<not> same_value v2 v \<longrightarrow>
                 (\<exists>vis. trace (snd (js_assign e x a k v2 t)) =
                    trace t @ Notified (uid s) # map Updated vis))"
    using dr g c cl tr1 set1 tr_set later
    by (intro exI[of _ s1] exI[of _ c] exI[of _ childOb]) simp
qed

theorem set_new_key_on_observed_record_witness:
  "set_js dev_sync quiet_ext (Ref 2) ''n'' (Num 5) root_heap =
     (Ret (Num 5), emit (Warned root_warning) root_heap)
   \<and> (\<exists>vis. trace (snd (set_js dev_sync quiet_ext (Ref 2) ''valueOf'' (Num 5) observed_heap)) =
         Notified 0 # map Updated vis)
   \<and> fst (set_js dev_sync quiet_ext (Ref 2) ''n'' (Num 5) frozen_heap) = Throw TypeError"
proof -
  define j where "j = (record_obj [(''a'', reactive 0), (''child'', reactive 3)])\<lparr>ob := Some 0\<rparr>"
  have j: "obj_at observed_heap 2 = Some j" "obj_at root_heap 2 = Some j"
    "obj_at frozen_heap 2 = Some (j\<lparr>extensible := False\<rparr>)"
    by (simp_all add: j_def heap_defs frozen_heap_def obj_at_def inc_vmCount_def)
  have rec: "cls j \<noteq> ArrayObject" and r: "ob j = Some 0" and ex: "extensible j"
    by (simp_all add: j_def record_obj_def)
  have obr: "observer_at observed_heap 0 = Some \<lparr>ob_value = 2, ob_dep = 0, vmCount = 0\<rparr>"
    "observer_at root_heap 0 = Some \<lparr>ob_value = 2, ob_dep = 0, vmCount = 1\<rparr>"
    "observer_at frozen_heap 0 = Some \<lparr>ob_value = 2, ob_dep = 0, vmCount = 0\<rparr>"
    by (simp_all add: heap_defs frozen_heap_def observer_at_def inc_vmCount_def)
  have own: "getOwnPropertyDescriptor observed_heap 2 ''valueOf'' = None"
    "getOwnPropertyDescriptor root_heap 2 ''n'' = None"
    "getOwnPropertyDescriptor frozen_heap 2 ''n'' = None"
    by (simp_all add: heap_defs frozen_heap_def getOwnPropertyDescriptor_def obj_at_def
        inc_vmCount_def)
  have guard: "has_property observed_heap 2 ''valueOf'' \<longrightarrow>
      has_property observed_heap (objectPrototype dev_sync) ''valueOf''"
    "has_property root_heap 2 ''n'' \<longrightarrow> has_property root_heap (objectPrototype dev_sync) ''n''"
    "has_property frozen_heap 2 ''n'' \<longrightarrow>
       has_property frozen_heap (objectPrototype dev_sync) ''n''"
    by (simp_all add: heap_defs frozen_heap_def has_property_def lookup_def obj_at_def
        inc_vmCount_def)
  have novue: "\<not> truthy (js_get quiet_ext observed_heap 2 ''_isVue'')"
    "\<not> truthy (js_get quiet_ext root_heap 2 ''_isVue'')"
    "\<not> truthy (js_get quiet_ext frozen_heap 2 ''_isVue'')"
    by (simp_all add: heap_defs frozen_heap_def js_get_def lookup_def obj_at_def inc_vmCount_def)
  have tr: "trace observed_heap = []" by (simp add: heap_defs)
  from set_new_key_on_observed_record
    [OF j(2) rec r obr(2) _ own(2) guard(2) _ novue(2), where v = "Num 5"]
  have root: "set_js dev_sync quiet_ext (Ref 2) ''n'' (Num 5) root_heap =
     (Ret (Num 5), emit (Warned root_warning) root_heap)"
    by (simp add: dev_sync_def)
  from set_new_key_on_observed_record
    [OF j(1) rec r obr(1) _ own(1) guard(1) _ novue(1), where v = "Num 5"] ex
  have defined: "\<exists>vis.
      trace (snd (set_js dev_sync quiet_ext (Ref 2) ''valueOf'' (Num 5) observed_heap)) =
         trace observed_heap @ Notified 0 # map Updated vis"
    by auto
  from set_new_key_on_observed_record
    [OF j(3) _ _ obr(3) _ own(3) guard(3) _ novue(3), where v = "Num 5"] rec r
  have "fst (set_js dev_sync quiet_ext (Ref 2) ''n'' (Num 5) frozen_heap) = Throw TypeError"
    by simp
  with root defined show ?thesis by (simp add: tr)
qed

text \<open>
  C7, as the specification states it, fails: the test of \<open>set\<close> is
  \<open>key in target && !(key in Object.prototype)\<close>, and \<open>in\<close> holds of inherited keys.
  On the observed record at address 3, which is no root data, \<open>k\<close> is no own
  property, yet \<open>set(target, 'k', 9)\<close> takes the branch of the plain assignment: the
  record gets a plain data property, no closure and no Dep is created (so
  \<open>defineReactive\<close> has not run), and nobody is notified.
\<close>

theorem set_inherited_key_assigns_counterexample:
  "map_of (props (objs inherit_heap ! 3)) ''k'' = None
   \<and> get_ob inherit_heap 3 = Some 0 \<and> vmCount (observers inherit_heap ! 0) = 0
   \<and> fst (set_js prod_sync quiet_ext (Ref 3) ''k'' (Num 9) inherit_heap) = Ret (Num 9)
   \<and> map_of (props (objs (snd (set_js prod_sync quiet_ext (Ref 3) ''k'' (Num 9) inherit_heap)) ! 3))
        ''k'' = Some (Data (Num 9) True True True)
   \<and> cells (snd (set_js prod_sync quiet_ext (Ref 3) ''k'' (Num 9) inherit_heap)) =
        cells inherit_heap
   \<and> uid (snd (set_js prod_sync quiet_ext (Ref 3) ''k'' (Num 9) inherit_heap)) = uid inherit_heap
   \<and> trace (snd (set_js prod_sync quiet_ext (Ref 3) ''k'' (Num 9) inherit_heap)) = []"
  by (simp add: heap_defs inherit_defs observe_defs set_defs)

text \<open>
  C7, amended. Let the target be a record and \<open>key\<close> no property of
  \<open>Object.prototype\<close>. When \<open>key in target\<close> holds, for an own or for an inherited
  property, \<open>set(target, key, value)\<close> performs the plain assignment: a writable data
  property of the target is overwritten at its place, and one that is inherited
  becomes a new own data property of an extensible target; in both cases a read gives
  \<open>value\<close>, no closure and no Dep is created and nobody is notified. A property with a
  setter has its setter called with \<open>value\<close>, the \<open>reactiveSetter\<close> of a reactive
  property or a setter of the application, and nothing else happens. A property that
  is read-only, and an inherited one on a target that is not extensible, make \<open>set\<close>
  throw a TypeError. When \<open>key\<close> is no own property of the target and where it is
  inherited, a property of \<open>Object.prototype\<close>, and the target carries the Observer
  that wraps it, is no root data, no Vue instance and extensible, \<open>set\<close> defines a
  new reactive property with a new closure and a new Dep, and notifies the Dep of the
  Observer. For a record whose prototype is \<open>Object.prototype\<close>, \<open>key in target\<close> holds
  exactly when \<open>key\<close> is an own property.
\<close>

theorem set_branches:
  assumes j: "obj_at s a = Some j" and rec: "cls j \<noteq> ArrayObject"
    and key: "k \<noteq> ''__ob__''"
  shows "(\<not> has_property s (objectPrototype e) k \<longrightarrow>
      (\<forall>v0 en cf. lookup s a k = Some (a, Data v0 True en cf) \<longrightarrow>
         fst (set_js e x (Ref a) k v s) = Ret v \<and>
         getOwnPropertyDescriptor (snd (set_js e x (Ref a) k v s)) a k =
           Some (Data v True en cf) \<and>
         js_get x (snd (set_js e x (Ref a) k v s)) a k = v \<and>
         cells (snd (set_js e x (Ref a) k v s)) = cells s \<and>
         uid (snd (set_js e x (Ref a) k v s)) = uid s \<and>
         trace (snd (set_js e x (Ref a) k v s)) = trace s)
    \<and> (\<forall>h v0 en cf. lookup s a k = Some (h, Data v0 True en cf) \<and> h \<noteq> a \<and> extensible j \<longrightarrow>
         fst (set_js e x (Ref a) k v s) = Ret v \<and>
         getOwnPropertyDescriptor (snd (set_js e x (Ref a) k v s)) a k =
           Some (Data v True True True) \<and>
         js_get x (snd (set_js e x (Ref a) k v s)) a k = v \<and>
         cells (snd (set_js e x (Ref a) k v s)) = cells s \<and>
         uid (snd (set_js e x (Ref a) k v s)) = uid s \<and>
         trace (snd (set_js e x (Ref a) k v s)) = trace s)
    \<and> (\<forall>h g c en cf. lookup s a k = Some (h, Accessor g (Some (ReactiveSet c)) en cf) \<longrightarrow>
         set_js e x (Ref a) k v s =
           (case reactiveSetter e x c v s of
              (Throw ex, s1) \<Rightarrow> (Throw ex, s1)
            | (Ret u, s1) \<Rightarrow> (Ret v, s1)))
    \<and> (\<forall>h g f en cf. lookup s a k = Some (h, Accessor g (Some (UserSet f)) en cf) \<longrightarrow>
         set_js e x (Ref a) k v s =
           (case run_ext (setter_call x f a v) s of
              (Throw ex, s1) \<Rightarrow> (Throw ex, s1)
            | (Ret u, s1) \<Rightarrow> (Ret v, s1)))
    \<and> (\<forall>h v0 en cf. lookup s a k = Some (h, Data v0 False en cf) \<longrightarrow>
         set_js e x (Ref a) k v s = (Throw TypeError, s))
    \<and> (\<forall>h g en cf. lookup s a k = Some (h, Accessor g None en cf) \<longrightarrow>
         set_js e x (Ref a) k v s = (Throw TypeError, s))
    \<and> (\<forall>h v0 en cf. lookup s a k = Some (h, Data v0 True en cf) \<and> h \<noteq> a \<and> \<not> extensible j \<longrightarrow>
         set_js e x (Ref a) k v s = (Throw TypeError, s)))
   \<and> (getOwnPropertyDescriptor s a k = None \<and>
        (has_property s a k \<longrightarrow> has_property s (objectPrototype e) k) \<and>
        ob j = Some r \<and> observer_at s r = Some obr \<and> ob_value obr = a \<and> vmCount obr = 0 \<and>
        extensible j \<and> \<not> truthy (js_get x s a ''_isVue'') \<longrightarrow>
        (\<exists>s1 c. getOwnPropertyDescriptor s1 a k =
                  Some (Accessor (Some (ReactiveGet c)) (Some (ReactiveSet c)) True True) \<and>
                length (cells s) \<le> c \<and> c < length (cells s1) \<and>
                c_val (cells s1 ! c) = v \<and> c_dep (cells s1 ! c) = uid s \<and>
                trace s1 = trace s \<and>
                set_js e x (Ref a) k v s =
                  (case notify e x (ob_dep obr) s1 of
                     (Throw ex, s2) \<Rightarrow> (Throw ex, s2)
                   | (Ret u, s2) \<Rightarrow> (Ret v, s2))) \<and>
        (\<exists>vis. trace (snd (set_js e x (Ref a) k v s)) =
           trace s @ Notified (ob_dep obr) # map Updated vis))
   \<and> (proto j = Some (objectPrototype e) \<and> obj_at s (objectPrototype e) = Some pj \<and>
        proto pj = None \<and> \<not> has_property s (objectPrototype e) k \<longrightarrow>
        (has_property s a k \<longleftrightarrow> map_of (props j) k \<noteq> None))"
proof (intro conjI impI allI)
  fix v0 en cf
  assume nop: "\<not> has_property s (objectPrototype e) k"
    and lk: "lookup s a k = Some (a, Data v0 True en cf)"
  from set_js_own_data[OF j rec lk nop, of x v]
  show "fst (set_js e x (Ref a) k v s) = Ret v"
    and "getOwnPropertyDescriptor (snd (set_js e x (Ref a) k v s)) a k = Some (Data v True en cf)"
    and "js_get x (snd (set_js e x (Ref a) k v s)) a k = v"
    and "cells (snd (set_js e x (Ref a) k v s)) = cells s"
    and "uid (snd (set_js e x (Ref a) k v s)) = uid s"
    and "trace (snd (set_js e x (Ref a) k v s)) = trace s"
    by simp_all
next
  fix h v0 en cf
  assume nop: "\<not> has_property s (objectPrototype e) k"
    and lk: "lookup s a k = Some (h, Data v0 True en cf) \<and> h \<noteq> a \<and> extensible j"
  from lk have lk': "lookup s a k = Some (h, Data v0 True en cf)" "h \<noteq> a" "extensible j"
    by simp_all
  from set_js_inherited_data[OF j rec lk' nop, of x v]
  show "fst (set_js e x (Ref a) k v s) = Ret v"
    and "getOwnPropertyDescriptor (snd (set_js e x (Ref a) k v s)) a k =
      Some (Data v True True True)"
    and "js_get x (snd (set_js e x (Ref a) k v s)) a k = v"
    and "cells (snd (set_js e x (Ref a) k v s)) = cells s"
    and "uid (snd (set_js e x (Ref a) k v s)) = uid s"
    and "trace (snd (set_js e x (Ref a) k v s)) = trace s"
    by simp_all
next
  fix h g c en cf
  assume nop: "\<not> has_property s (objectPrototype e) k"
    and lk: "lookup s a k = Some (h, Accessor g (Some (ReactiveSet c)) en cf)"
  show "set_js e x (Ref a) k v s =
      (case reactiveSetter e x c v s of
         (Throw ex, s1) \<Rightarrow> (Throw ex, s1)
       | (Ret u, s1) \<Rightarrow> (Ret v, s1))"
    unfolding set_js_assigns[OF j rec lk nop] by (simp add: js_assign_def lk call_setter_def)
next
  fix h g f en cf
  assume nop: "\<not> has_property s (objectPrototype e) k"
    and lk: "lookup s a k = Some (h, Accessor g (Some (UserSet f)) en cf)"
  show "set_js e x (Ref a) k v s =
      (case run_ext (setter_call x f a v) s of
         (Throw ex, s1) \<Rightarrow> (Throw ex, s1)
       | (Ret u, s1) \<Rightarrow> (Ret v, s1))"
    unfolding set_js_assigns[OF j rec lk nop] by (simp add: js_assign_def lk call_setter_def)
next
  fix h v0 en cf
  assume nop: "\<not> has_property s (objectPrototype e) k"
    and lk: "lookup s a k = Some (h, Data v0 False en cf)"
  show "set_js e x (Ref a) k v s = (Throw TypeError, s)"
    unfolding set_js_assigns[OF j rec lk nop] by (simp add: js_assign_def lk)
next
  fix h g en cf
  assume nop: "\<not> has_property s (objectPrototype e) k"
    and lk: "lookup s a k = Some (h, Accessor g None en cf)"
  show "set_js e x (Ref a) k v s = (Throw TypeError, s)"
    unfolding set_js_assigns[OF j rec lk nop] by (simp add: js_assign_def lk)
next
  fix h v0 en cf
  assume nop: "\<not> has_property s (objectPrototype e) k"
    and lk: "lookup s a k = Some (h, Data v0 True en cf) \<and> h \<noteq> a \<and> \<not> extensible j"
  from lk have lk': "lookup s a k = Some (h, Data v0 True en cf)" by simp
  show "set_js e x (Ref a) k v s = (Throw TypeError, s)"
    unfolding set_js_assigns[OF j rec lk' nop]
    using lk by (simp add: js_assign_def create_data_def j)
next
  assume h: "getOwnPropertyDescriptor s a k = None \<and>
        (has_property s a k \<longrightarrow> has_property s (objectPrototype e) k) \<and>
        ob j = Some r \<and> observer_at s r = Some obr \<and> ob_value obr = a \<and> vmCount obr = 0 \<and>
        extensible j \<and> \<not> truthy (js_get x s a ''_isVue'')"
  then have hs: "ob j = Some r" "observer_at s r = Some obr" "ob_value obr = a"
    "getOwnPropertyDescriptor s a k = None"
    "has_property s a k \<longrightarrow> has_property s (objectPrototype e) k"
    "\<not> truthy (js_get x s a ''_isVue'')" "vmCount obr = 0" "extensible j"
    by simp_all
  from set_js_defines[OF j rec hs, of v]
  obtain s1 c childOb where
    g: "getOwnPropertyDescriptor s1 a k =
       Some (Accessor (Some (ReactiveGet c)) (Some (ReactiveSet c)) True True)"
    and c: "length (cells s) \<le> c" "c < length (cells s1)"
    and cl: "cells s1 ! c =
       \<lparr>c_obj = a, c_dep = uid s, c_val = v, c_childOb = childOb, c_shallow = False,
        c_customSetter = None, c_getter = None, c_setter = None\<rparr>"
    and tr1: "trace s1 = trace s"
    and set1: "set_js e x (Ref a) k v s =
      (case notify e x (ob_dep obr) s1 of
         (Throw ex, s2) \<Rightarrow> (Throw ex, s2)
       | (Ret u, s2) \<Rightarrow> (Ret v, s2))"
    and tr_set: "\<exists>vis. trace (snd (set_js e x (Ref a) k v s)) =
      trace s @ Notified (ob_dep obr) # map Updated vis"
    by blast
  show "\<exists>s1 c. getOwnPropertyDescriptor s1 a k =
                  Some (Accessor (Some (ReactiveGet c)) (Some (ReactiveSet c)) True True) \<and>
                length (cells s) \<le> c \<and> c < length (cells s1) \<and>
                c_val (cells s1 ! c) = v \<and> c_dep (cells s1 ! c) = uid s \<and>
                trace s1 = trace s \<and>
                set_js e x (Ref a) k v s =
                  (case notify e x (ob_dep obr) s1 of
                     (Throw ex, s2) \<Rightarrow> (Throw ex, s2)
                   | (Ret u, s2) \<Rightarrow> (Ret v, s2))"
    using g c cl tr1 set1 by (intro exI[of _ s1] exI[of _ c]) simp
  show "\<exists>vis. trace (snd (set_js e x (Ref a) k v s)) =
           trace s @ Notified (ob_dep obr) # map Updated vis"
    by (rule tr_set)
next
  assume p: "proto j = Some (objectPrototype e) \<and> obj_at s (objectPrototype e) = Some pj \<and>
        proto pj = None \<and> \<not> has_property s (objectPrototype e) k"
  then have la: "lookup s a k =
           (case map_of (props j) k of
              Some d \<Rightarrow> Some (a, d)
            | None \<Rightarrow> (case map_of (props pj) k of
                 Some d \<Rightarrow> Some (objectPrototype e, d) | None \<Rightarrow> None))"
    using lookup_plain[OF j, of "objectPrototype e" pj k] by simp
  from p obtain n where "length (objs s) = Suc n"
    by (cases "length (objs s)") (auto simp: obj_at_def split: if_splits)
  with p have lp: "lookup s (objectPrototype e) k =
      (case map_of (props pj) k of Some d \<Rightarrow> Some (objectPrototype e, d) | None \<Rightarrow> None)"
    by (simp add: lookup_def split: option.splits)
  show "has_property s a k = (map_of (props j) k \<noteq> None)"
    using p by (simp add: has_property_def la lp split: option.splits)
qed

theorem set_branches_witness:
  "fst (set_js dev_sync quiet_ext (Ref 2) ''a'' (Num 5) observed_heap) = Ret (Num 5)
   \<and> trace (snd (set_js dev_sync quiet_ext (Ref 2) ''a'' (Num 5) observed_heap)) = [Notified 1]
   \<and> getOwnPropertyDescriptor (snd (set_js dev_sync quiet_ext (Ref 3) ''k'' (Num 9) inherit_heap))
        3 ''k'' = Some (Data (Num 9) True True True)
   \<and> trace (snd (set_js dev_sync quiet_ext (Ref 3) ''k'' (Num 9) inherit_heap)) = []
   \<and> (\<exists>vis. trace (snd (set_js dev_sync quiet_ext (Ref 2) ''n'' (Num 5) observed_heap)) =
         Notified 0 # map Updated vis)"
proof -
  define j where "j = (record_obj [(''a'', reactive 0), (''child'', reactive 3)])\<lparr>ob := Some 0\<rparr>"
  define i where "i = (record_obj [(''a'', reactive 0)])\<lparr>proto := Some 2, ob := Some 0\<rparr>"
  have j: "obj_at observed_heap 2 = Some j"
    by (simp add: j_def heap_defs obj_at_def)
  have i: "obj_at inherit_heap 3 = Some i"
    by (simp add: i_def heap_defs inherit_defs obj_at_def)
  have rec: "cls j \<noteq> ArrayObject" "cls i \<noteq> ArrayObject"
    by (simp_all add: j_def i_def record_obj_def)
  have op: "objectPrototype dev_sync = 0" by (simp add: dev_sync_def)
  have key: "''a'' \<noteq> ''__ob__''" "''k'' \<noteq> ''__ob__''" "''n'' \<noteq> ''__ob__''"
    by simp_all
  have nop: "\<not> has_property observed_heap (objectPrototype dev_sync) ''a''"
    "\<not> has_property inherit_heap (objectPrototype dev_sync) ''k''"
    by (simp_all add: op heap_defs inherit_defs has_property_def lookup_def obj_at_def)
  have lk_a: "lookup observed_heap 2 ''a'' =
      Some (2, Accessor (Some (ReactiveGet 0)) (Some (ReactiveSet 0)) True True)"
    by (simp add: heap_defs lookup_def obj_at_def)
  have lk_k: "lookup inherit_heap 3 ''k'' = Some (2, Data (Num 1) True True True) \<and>
      (2::nat) \<noteq> 3 \<and> extensible i"
    by (simp add: heap_defs inherit_defs lookup_def obj_at_def i_def)
  from set_branches[OF j rec(1) key(1), where e = dev_sync and x = quiet_ext
      and v = "Num 5", THEN conjunct1, THEN mp, OF nop(1), THEN conjunct2, THEN conjunct2,
      THEN conjunct1, rule_format, OF lk_a]
  have "set_js dev_sync quiet_ext (Ref 2) ''a'' (Num 5) observed_heap =
      (case reactiveSetter dev_sync quiet_ext 0 (Num 5) observed_heap of
         (Throw ex, s1) \<Rightarrow> (Throw ex, s1)
       | (Ret u, s1) \<Rightarrow> (Ret (Num 5), s1))" .
  moreover have "fst (reactiveSetter dev_sync quiet_ext 0 (Num 5) observed_heap) = Ret () \<and>
      trace (snd (reactiveSetter dev_sync quiet_ext 0 (Num 5) observed_heap)) = [Notified 1]"
    by (simp add: heap_defs observe_defs set_defs)
  ultimately have own: "fst (set_js dev_sync quiet_ext (Ref 2) ''a'' (Num 5) observed_heap) =
      Ret (Num 5) \<and>
      trace (snd (set_js dev_sync quiet_ext (Ref 2) ''a'' (Num 5) observed_heap)) = [Notified 1]"
    by (cases "reactiveSetter dev_sync quiet_ext 0 (Num 5) observed_heap") simp
  from set_branches[OF i rec(2) key(2), where e = dev_sync and x = quiet_ext
      and v = "Num 9", THEN conjunct1, THEN mp, OF nop(2), THEN conjunct2, THEN conjunct1,
      rule_format, OF lk_k]
  have inherited: "getOwnPropertyDescriptor
        (snd (set_js dev_sync quiet_ext (Ref 3) ''k'' (Num 9) inherit_heap)) 3 ''k'' =
        Some (Data (Num 9) True True True) \<and>
      trace (snd (set_js dev_sync quiet_ext (Ref 3) ''k'' (Num 9) inherit_heap)) =
        trace inherit_heap"
    by simp
  have b: "getOwnPropertyDescriptor observed_heap 2 ''n'' = None \<and>
      (has_property observed_heap 2 ''n'' \<longrightarrow>
         has_property observed_heap (objectPrototype dev_sync) ''n'') \<and>
      ob j = Some 0 \<and>
      observer_at observed_heap 0 = Some \<lparr>ob_value = 2, ob_dep = 0, vmCount = 0\<rparr> \<and>
      ob_value \<lparr>ob_value = 2, ob_dep = 0, vmCount = 0\<rparr> = 2 \<and>
      vmCount \<lparr>ob_value = 2, ob_dep = 0, vmCount = 0\<rparr> = 0 \<and>
      extensible j \<and> \<not> truthy (js_get quiet_ext observed_heap 2 ''_isVue'')"
    by (simp add: heap_defs getOwnPropertyDescriptor_def has_property_def lookup_def obj_at_def
        observer_at_def js_get_def j_def)
  from set_branches[OF j rec(1) key(3), where e = dev_sync and x = quiet_ext
      and v = "Num 5" and r = 0 and obr = "\<lparr>ob_value = 2, ob_dep = 0, vmCount = 0\<rparr>",
      THEN conjunct2, THEN conjunct1, THEN mp, OF b]
  have defined: "\<exists>vis.
      trace (snd (set_js dev_sync quiet_ext (Ref 2) ''n'' (Num 5) observed_heap)) =
        trace observed_heap @ Notified 0 # map Updated vis"
    by simp
  have tr: "trace observed_heap = []" "trace inherit_heap = []"
    by (simp_all add: heap_defs inherit_defs)
  from own inherited defined show ?thesis by (simp add: tr)
qed


end
